theory Spec2Isabelle
  imports Main
begin

unbundle bit_operations_syntax

section \<open>Python values and exceptions\<close>

text \<open>
  The program is Python 2.7: \<open>str\<close> is a byte string, modelled as \<open>string\<close>
  (a list of 8-bit characters); integers are unbounded, modelled as \<open>int\<close>.
  Every \<open>assert\<close>, \<open>struct.error\<close> and lookup failure is a value of \<open>error\<close>.
\<close>

datatype pyval =
    PInt int
  | PStr string
  | PBool bool
  | PNone
  | PDict "(string \<times> pyval) list"
  | PList "pyval list"

datatype error =
    WantBytes int int          \<comment> \<open>AssertionError: 'Want %d bytes, have %d'\<close>
  | IteratorLength             \<comment> \<open>AssertionError: \<open>self.length <= len(self.data)\<close>\<close>
  | NotOneValue                \<comment> \<open>AssertionError: \<open>len(values) == 1\<close>\<close>
  | UnknownAttribute int int   \<comment> \<open>AssertionError: 'Unknown attribute type %d, len %d'\<close>
  | BytesRemaining int         \<comment> \<open>AssertionError: '%d bytes remaining'\<close>
  | UnexpectedCommand int      \<comment> \<open>AssertionError: \<open>msgtype == ...['newfamily']\<close>\<close>
  | FamilyIdMismatch int       \<comment> \<open>AssertionError: \<open>attrs['family_id'] == ...['id']\<close>\<close>
  | StructError                \<comment> \<open>struct.error\<close>
  | KeyError
  | TypeError
  | AttributeError

definition NUL :: char where
  "NUL = CHR 0x00"

text \<open>Python's \<open>s[i:j]\<close> on a byte string: negative indices count from the end, both
  indices are clamped to the string, an empty range gives the empty string.\<close>

definition py_slice :: "string \<Rightarrow> int \<Rightarrow> int \<Rightarrow> string" where
  "py_slice s i j =
     (let n = int (length s);
          a = (if i < 0 then max 0 (i + n) else min i n);
          b = (if j < 0 then max 0 (j + n) else min j n)
      in take (nat (b - a)) (drop (nat a) s))"

section \<open>Iterator: the read cursor\<close>

record Iterator =
  data :: string
  offset :: int
  length_it :: int

definition Iterator_init :: "string \<Rightarrow> int \<Rightarrow> int option \<Rightarrow> error + Iterator" where
  "Iterator_init d off len =
     (let l = (case len of None \<Rightarrow> int (length d) | Some l' \<Rightarrow> l')
      in if l \<le> int (length d)
         then Inr \<lparr>data = d, offset = off, length_it = l\<rparr>
         else Inl IteratorLength)"

definition Remaining :: "Iterator \<Rightarrow> int" where
  "Remaining it = length_it it - offset it"

definition AtEnd :: "Iterator \<Rightarrow> bool" where
  "AtEnd it = (Remaining it = 0)"

definition Advance :: "Iterator \<Rightarrow> int \<Rightarrow> error + Iterator" where
  "Advance it offset_incr =
     (if offset_incr \<le> Remaining it
      then Inr (it\<lparr>offset := offset it + offset_incr\<rparr>)
      else Inl (WantBytes offset_incr (Remaining it)))"

definition Extract :: "Iterator \<Rightarrow> int \<Rightarrow> error + string \<times> Iterator" where
  "Extract it len =
     (if len \<le> Remaining it
      then (let ret = py_slice (data it) (offset it) (offset it + len)
            in case Advance it len of
                 Inl e \<Rightarrow> Inl e
               | Inr it' \<Rightarrow> Inr (ret, it'))
      else Inl (WantBytes len (Remaining it)))"

definition ExtractIterator :: "Iterator \<Rightarrow> int \<Rightarrow> error + Iterator \<times> Iterator" where
  "ExtractIterator it len =
     (if len \<le> Remaining it
      then (case Iterator_init (data it) (offset it) (Some (offset it + len)) of
              Inl e \<Rightarrow> Inl e
            | Inr ret \<Rightarrow>
                (case Advance it len of
                   Inl e \<Rightarrow> Inl e
                 | Inr it' \<Rightarrow> Inr (ret, it')))
      else Inl (WantBytes len (Remaining it)))"

section \<open>Accumulator: the write buffer\<close>

type_synonym Accumulator = "string list"

definition Accumulator_init :: Accumulator where
  "Accumulator_init = []"

definition Append :: "Accumulator \<Rightarrow> string \<Rightarrow> Accumulator" where
  "Append acc v = acc @ [v]"

definition str_acc :: "Accumulator \<Rightarrow> string" where
  "str_acc acc = concat acc"

definition len_acc :: "Accumulator \<Rightarrow> int" where
  "len_acc acc = sum_list (map (\<lambda>part. int (length part)) acc)"

section \<open>struct.Struct in native mode\<close>

text \<open>
  The formats of the program carry no byte-order prefix, so \<open>struct\<close> works in native
  mode: native byte order, native sizes, native alignment between fields. The host is a
  parameter of the model: its data model gives the size of the C type behind a format
  character (\<open>L\<close> is \<open>unsigned long\<close>: 4 bytes on ILP32, 8 bytes on LP64), its byte
  order the order of the bytes of a field. A field is aligned to its own size, which is
  the rule of every Linux ABI for \<open>B\<close>, \<open>H\<close> and \<open>L\<close>; \<open>Q\<close> is only ever the first
  field of a format here, where no alignment applies.
\<close>

datatype data_model = ILP32 | LP64

datatype byte_order = LittleEndian | BigEndian

record platform =
  model :: data_model
  order :: byte_order

datatype fmtcode = Fmt_B | Fmt_H | Fmt_L | Fmt_Q

fun fmt_size :: "platform \<Rightarrow> fmtcode \<Rightarrow> nat" where
  "fmt_size p Fmt_B = 1"
| "fmt_size p Fmt_H = 2"
| "fmt_size p Fmt_L = (case model p of ILP32 \<Rightarrow> 4 | LP64 \<Rightarrow> 8)"
| "fmt_size p Fmt_Q = 8"

fun le_bytes :: "nat \<Rightarrow> int \<Rightarrow> string" where
  "le_bytes 0 v = []"
| "le_bytes (Suc n) v = char_of (v mod 256) # le_bytes n (v div 256)"

fun le_int :: "string \<Rightarrow> int" where
  "le_int [] = 0"
| "le_int (c # cs) = of_char c + 256 * le_int cs"

definition int_bytes :: "platform \<Rightarrow> nat \<Rightarrow> int \<Rightarrow> string" where
  "int_bytes p n v =
     (case order p of LittleEndian \<Rightarrow> le_bytes n v | BigEndian \<Rightarrow> rev (le_bytes n v))"

definition bytes_int :: "platform \<Rightarrow> string \<Rightarrow> int" where
  "bytes_int p bs =
     (case order p of LittleEndian \<Rightarrow> le_int bs | BigEndian \<Rightarrow> le_int (rev bs))"

text \<open>Padding in front of a field of the given size when the struct has reached \<open>off\<close>.\<close>

definition align_pad :: "nat \<Rightarrow> nat \<Rightarrow> nat" where
  "align_pad off sz = (sz - off mod sz) mod sz"

fun calcsize_from :: "platform \<Rightarrow> nat \<Rightarrow> fmtcode list \<Rightarrow> nat" where
  "calcsize_from p off [] = off"
| "calcsize_from p off (c # cs) =
     calcsize_from p (off + align_pad off (fmt_size p c) + fmt_size p c) cs"

definition struct_size :: "platform \<Rightarrow> fmtcode list \<Rightarrow> nat" where
  "struct_size p fmt = calcsize_from p 0 fmt"

text \<open>\<open>Struct.pack\<close>: \<open>struct.error\<close> when the number of values differs from the number of
  fields or a value is outside the range of its field.\<close>

fun pack_from :: "platform \<Rightarrow> nat \<Rightarrow> fmtcode list \<Rightarrow> int list \<Rightarrow> error + string" where
  "pack_from p off [] [] = Inr []"
| "pack_from p off (c # cs) (v # vs) =
     (if 0 \<le> v \<and> v < 256 ^ fmt_size p c
      then (let pad = align_pad off (fmt_size p c)
            in case pack_from p (off + pad + fmt_size p c) cs vs of
                 Inl e \<Rightarrow> Inl e
               | Inr rest \<Rightarrow> Inr (replicate pad NUL @ int_bytes p (fmt_size p c) v @ rest))
      else Inl StructError)"
| "pack_from p off [] (v # vs) = Inl StructError"
| "pack_from p off (c # cs) [] = Inl StructError"

definition struct_pack :: "platform \<Rightarrow> fmtcode list \<Rightarrow> int list \<Rightarrow> error + string" where
  "struct_pack p fmt vs = pack_from p 0 fmt vs"

fun unpack_fields :: "platform \<Rightarrow> nat \<Rightarrow> fmtcode list \<Rightarrow> string \<Rightarrow> int list" where
  "unpack_fields p off [] bs = []"
| "unpack_fields p off (c # cs) bs =
     (let pad = align_pad off (fmt_size p c);
          sz = fmt_size p c
      in bytes_int p (take sz (drop pad bs))
         # unpack_fields p (off + pad + sz) cs (drop (pad + sz) bs))"

text \<open>\<open>Struct.unpack_from(buffer, offset)\<close>: a negative offset counts from the end of the
  buffer; \<open>struct.error\<close> when fewer than \<open>size\<close> bytes follow the offset. The buffer is
  the whole string: the bound of an Iterator plays no part.\<close>

definition unpack_from :: "platform \<Rightarrow> fmtcode list \<Rightarrow> string \<Rightarrow> int \<Rightarrow> error + int list" where
  "unpack_from p fmt buf off =
     (let n = int (length buf);
          off' = (if off < 0 then off + n else off)
      in if off' < 0 \<or> n - off' < int (struct_size p fmt)
         then Inl StructError
         else Inr (unpack_fields p 0 fmt (take (struct_size p fmt) (drop (nat off') buf))))"

section \<open>Field codecs\<close>

text \<open>
  A schema is a dictionary from the 16-bit type tag to \<open>(name, sub_parser)\<close>; it is kept
  as an association list read with \<open>map_of\<close>.
\<close>

datatype parser =
    EmptyParser
  | StringParser
  | SingleStructParser "fmtcode list"
  | StructParser "fmtcode list" "string list"
  | Attributes "(int \<times> string \<times> parser) list"
  | Array parser

definition flag :: parser where "flag = EmptyParser"
definition string_p :: parser where "string_p = StringParser"
definition u8 :: parser where "u8 = SingleStructParser [Fmt_B]"
definition u16 :: parser where "u16 = SingleStructParser [Fmt_H]"
definition u32 :: parser where "u32 = SingleStructParser [Fmt_L]"
definition u64 :: parser where "u64 = SingleStructParser [Fmt_Q]"

text \<open>\<open>struct\<close> takes an integer argument from an \<open>int\<close> or a \<open>bool\<close>; anything else
  is a \<open>struct.error\<close>.\<close>

fun struct_arg :: "pyval \<Rightarrow> error + int" where
  "struct_arg (PInt v) = Inr v"
| "struct_arg (PBool b) = Inr (if b then 1 else 0)"
| "struct_arg v = Inl StructError"

text \<open>
  \<open>sub_parser.Pack(accumulator, value)\<close> with one positional value, as \<open>Attribute.Pack\<close>
  calls it. \<open>StringParser.Pack\<close> appends the value as it is; a value that is not a
  \<open>str\<close> makes the next \<open>len\<close> or \<open>join\<close> over the parts raise \<open>TypeError\<close>.
  \<open>StructParser.Pack\<close> and \<open>Attributes.Pack\<close> take keyword arguments only, and \<open>Array\<close>
  has no \<open>Pack\<close>.
\<close>

fun Pack :: "platform \<Rightarrow> parser \<Rightarrow> Accumulator \<Rightarrow> pyval \<Rightarrow> error + Accumulator" where
  "Pack p EmptyParser acc v = Inr acc"
| "Pack p StringParser acc v =
     (case v of PStr s \<Rightarrow> Inr (Append acc s) | _ \<Rightarrow> Inl TypeError)"
| "Pack p (SingleStructParser fmt) acc v =
     (case struct_arg v of
        Inl e \<Rightarrow> Inl e
      | Inr i \<Rightarrow>
          (case struct_pack p fmt [i] of
             Inl e \<Rightarrow> Inl e
           | Inr bs \<Rightarrow> Inr (Append acc bs)))"
| "Pack p (StructParser fmt flds) acc v = Inl TypeError"
| "Pack p (Attributes attrs) acc v = Inl TypeError"
| "Pack p (Array child) acc v = Inl AttributeError"

text \<open>\<open>StructParser.Pack(accumulator, **values)\<close>: the values in the order of the fields.\<close>

fun ordered_values :: "string list \<Rightarrow> (string \<times> int) list \<Rightarrow> error + int list" where
  "ordered_values [] values = Inr []"
| "ordered_values (field # flds) values =
     (case map_of values field of
        None \<Rightarrow> Inl KeyError
      | Some v \<Rightarrow>
          (case ordered_values flds values of
             Inl e \<Rightarrow> Inl e
           | Inr vs \<Rightarrow> Inr (v # vs)))"

definition StructParser_Pack ::
  "platform \<Rightarrow> fmtcode list \<Rightarrow> string list \<Rightarrow> Accumulator \<Rightarrow> (string \<times> int) list
     \<Rightarrow> error + Accumulator" where
  "StructParser_Pack p fmt flds acc values =
     (case ordered_values flds values of
        Inl e \<Rightarrow> Inl e
      | Inr vs \<Rightarrow>
          (case struct_pack p fmt vs of
             Inl e \<Rightarrow> Inl e
           | Inr bs \<Rightarrow> Inr (Append acc bs)))"

text \<open>\<open>dict(zip(fields, values))\<close> and \<open>ret.update(...)\<close>: a later value for a key replaces
  the earlier one.\<close>

definition dict_update :: "'k \<Rightarrow> 'v \<Rightarrow> ('k \<times> 'v) list \<Rightarrow> ('k \<times> 'v) list" where
  "dict_update k v d = (k, v) # filter (\<lambda>kv. fst kv \<noteq> k) d"

definition dict_of :: "('k \<times> 'v) list \<Rightarrow> ('k \<times> 'v) list" where
  "dict_of kvs = foldl (\<lambda>d kv. dict_update (fst kv) (snd kv) d) [] kvs"

definition StructParser_Unpack ::
  "platform \<Rightarrow> fmtcode list \<Rightarrow> string list \<Rightarrow> Iterator \<Rightarrow> error + (string \<times> int) list \<times> Iterator" where
  "StructParser_Unpack p fmt flds it =
     (case unpack_from p fmt (data it) (offset it) of
        Inl e \<Rightarrow> Inl e
      | Inr values \<Rightarrow>
          (case Advance it (int (struct_size p fmt)) of
             Inl e \<Rightarrow> Inl e
           | Inr it' \<Rightarrow> Inr (dict_of (zip flds values), it')))"

definition SingleStructParser_Unpack ::
  "platform \<Rightarrow> fmtcode list \<Rightarrow> Iterator \<Rightarrow> error + pyval \<times> Iterator" where
  "SingleStructParser_Unpack p fmt it =
     (case unpack_from p fmt (data it) (offset it) of
        Inl e \<Rightarrow> Inl e
      | Inr values \<Rightarrow>
          (case Advance it (int (struct_size p fmt)) of
             Inl e \<Rightarrow> Inl e
           | Inr it' \<Rightarrow>
               (case values of
                  [v] \<Rightarrow> Inr (PInt v, it')
                | _ \<Rightarrow> Inl NotOneValue)))"

definition StringParser_Unpack :: "Iterator \<Rightarrow> error + pyval \<times> Iterator" where
  "StringParser_Unpack it =
     (case Extract it (Remaining it) of
        Inl e \<Rightarrow> Inl e
      | Inr (s, it') \<Rightarrow> Inr (PStr s, it'))"

definition EmptyParser_Unpack :: "Iterator \<Rightarrow> error + pyval \<times> Iterator" where
  "EmptyParser_Unpack it = Inr (PBool True, it)"

text \<open>\<open>d[k]\<close>: \<open>KeyError\<close> when the key is absent.\<close>

definition dict_get :: "('k \<times> 'v) list \<Rightarrow> 'k \<Rightarrow> error + 'v" where
  "dict_get d k = (case map_of d k of None \<Rightarrow> Inl KeyError | Some v \<Rightarrow> Inr v)"

section \<open>Attribute, Attributes and Array\<close>

definition nlattr_fmt :: "fmtcode list" where
  "nlattr_fmt = [Fmt_H, Fmt_H]"

definition nlattr_fields :: "string list" where
  "nlattr_fields = [''len'', ''type'']"

definition arrayhdr_fields :: "string list" where
  "arrayhdr_fields = [''len'', ''index'']"

text \<open>\<open>((n + 4 - 1) & ~3) - n\<close> on Python's unbounded integers.\<close>

definition padding_of :: "int \<Rightarrow> int" where
  "padding_of n = ((n + 4 - 1) AND NOT 3) - n"

text \<open>
  \<open>Attribute.Unpack\<close> up to the call of the sub-parser: the 4-byte header, the lookup of
  the type tag, the sub-cursor bounded to \<open>len - 4\<close> bytes. The parent cursor is moved past
  the payload when the sub-cursor is made.
\<close>

record attr_head =
  head_name :: string
  head_parser :: parser
  head_len :: int
  head_sub :: Iterator
  head_rest :: Iterator

definition Attribute_head ::
  "platform \<Rightarrow> (int \<times> string \<times> parser) list \<Rightarrow> Iterator \<Rightarrow> error + attr_head" where
  "Attribute_head p attrs it =
     (case StructParser_Unpack p nlattr_fmt nlattr_fields it of
        Inl e \<Rightarrow> Inl e
      | Inr (nlattr, it1) \<Rightarrow>
          (case dict_get nlattr ''len'' of
             Inl e \<Rightarrow> Inl e
           | Inr len \<Rightarrow>
               (case dict_get nlattr ''type'' of
                  Inl e \<Rightarrow> Inl e
                | Inr type \<Rightarrow>
                    (case map_of attrs type of
                       None \<Rightarrow> Inl (UnknownAttribute type len)
                     | Some (name, sub_parser) \<Rightarrow>
                         (case ExtractIterator it1 (len - int (struct_size p nlattr_fmt)) of
                            Inl e \<Rightarrow> Inl e
                          | Inr (sub_iterator, it2) \<Rightarrow>
                              Inr \<lparr>head_name = name, head_parser = sub_parser, head_len = len,
                                   head_sub = sub_iterator, head_rest = it2\<rparr>)))))"

text \<open>\<open>Attribute.Unpack\<close> after the sub-parser has returned \<open>v\<close> and left the sub-cursor
  as \<open>sub_iterator\<close>: the assertion that the sub-cursor is used up, then the padding.\<close>

definition Attribute_tail ::
  "attr_head \<Rightarrow> pyval \<times> Iterator \<Rightarrow> error + (string \<times> pyval) \<times> Iterator" where
  "Attribute_tail h r =
     (let v = fst r; sub_iterator = snd r
      in if \<not> AtEnd sub_iterator
         then Inl (BytesRemaining (Remaining sub_iterator))
         else (case Advance (head_rest h) (padding_of (head_len h)) of
                 Inl e \<Rightarrow> Inl e
               | Inr it3 \<Rightarrow> Inr ((head_name h, v), it3)))"

text \<open>One round of \<open>Array.Unpack\<close> up to the call of the child: the 4-byte header and the
  sub-cursor; the result is the sub-cursor and the parent cursor after it. The format of
  \<open>_arrayhdr\<close> is the \<open>HH\<close> of \<open>_nlattr\<close>; no padding follows an element.\<close>

definition Array_head :: "platform \<Rightarrow> Iterator \<Rightarrow> error + Iterator \<times> Iterator" where
  "Array_head p it =
     (case StructParser_Unpack p nlattr_fmt arrayhdr_fields it of
        Inl e \<Rightarrow> Inl e
      | Inr (hdr, it1) \<Rightarrow>
          (case dict_get hdr ''len'' of
             Inl e \<Rightarrow> Inl e
           | Inr len \<Rightarrow> ExtractIterator it1 (len - int (struct_size p nlattr_fmt))))"

text \<open>
  The decoders. The two \<open>while not iterator.AtEnd()\<close> loops need not terminate (a unit
  of declared length 0 can leave the cursor where it was), so the decoders take fuel:
  every call and every iteration spends one unit, and \<open>None\<close> is the run that has not
  returned within the fuel. \<open>Some (Inl e)\<close> is a raised exception, \<open>Some (Inr (v, it))\<close>
  the returned value with the cursor as the call left it. A sub-cursor is an object of
  its own: decoding through it leaves the parent cursor untouched.
\<close>

function (sequential) Unpack :: "nat \<Rightarrow> platform \<Rightarrow> parser \<Rightarrow> Iterator \<Rightarrow> (error + pyval \<times> Iterator) option"
and Attribute_Unpack ::
  "nat \<Rightarrow> platform \<Rightarrow> (int \<times> string \<times> parser) list \<Rightarrow> Iterator
     \<Rightarrow> (error + (string \<times> pyval) \<times> Iterator) option"
and Attributes_loop ::
  "nat \<Rightarrow> platform \<Rightarrow> (int \<times> string \<times> parser) list \<Rightarrow> (string \<times> pyval) list \<Rightarrow> Iterator
     \<Rightarrow> (error + pyval \<times> Iterator) option"
and Array_loop ::
  "nat \<Rightarrow> platform \<Rightarrow> parser \<Rightarrow> pyval list \<Rightarrow> Iterator \<Rightarrow> (error + pyval \<times> Iterator) option"
where
  "Unpack 0 p ps it = None"
| "Unpack (Suc n) p EmptyParser it = Some (EmptyParser_Unpack it)"
| "Unpack (Suc n) p StringParser it = Some (StringParser_Unpack it)"
| "Unpack (Suc n) p (SingleStructParser fmt) it = Some (SingleStructParser_Unpack p fmt it)"
| "Unpack (Suc n) p (StructParser fmt flds) it =
     Some (case StructParser_Unpack p fmt flds it of
             Inl e \<Rightarrow> Inl e
           | Inr r \<Rightarrow> Inr (PDict (map (\<lambda>kv. (fst kv, PInt (snd kv))) (fst r)), snd r))"
| "Unpack (Suc n) p (Attributes attrs) it = Attributes_loop n p attrs [] it"
| "Unpack (Suc n) p (Array child) it = Array_loop n p child [] it"
| "Attribute_Unpack 0 p attrs it = None"
| "Attribute_Unpack (Suc n) p attrs it =
     (case Attribute_head p attrs it of
        Inl e \<Rightarrow> Some (Inl e)
      | Inr h \<Rightarrow>
          (case Unpack n p (head_parser h) (head_sub h) of
             None \<Rightarrow> None
           | Some (Inl e) \<Rightarrow> Some (Inl e)
           | Some (Inr r) \<Rightarrow> Some (Attribute_tail h r)))"
| "Attributes_loop 0 p attrs ret it = None"
| "Attributes_loop (Suc n) p attrs ret it =
     (if AtEnd it then Some (Inr (PDict ret, it))
      else (case Attribute_Unpack n p attrs it of
              None \<Rightarrow> None
            | Some (Inl e) \<Rightarrow> Some (Inl e)
            | Some (Inr r) \<Rightarrow>
                Attributes_loop n p attrs (dict_update (fst (fst r)) (snd (fst r)) ret) (snd r)))"
| "Array_loop 0 p child ret it = None"
| "Array_loop (Suc n) p child ret it =
     (if AtEnd it then Some (Inr (PList ret, it))
      else (case Array_head p it of
              Inl e \<Rightarrow> Some (Inl e)
            | Inr h \<Rightarrow>
                (case Unpack n p child (fst h) of
                   None \<Rightarrow> None
                 | Some (Inl e) \<Rightarrow> Some (Inl e)
                 | Some (Inr r) \<Rightarrow>
                     (if \<not> AtEnd (snd r)
                      then Some (Inl (BytesRemaining (Remaining (snd r))))
                      else Array_loop n p child (ret @ [fst r]) (snd h)))))"

  by pat_completeness auto
termination
  by (relation "measure (\<lambda>x. case x of Inl (Inl a) \<Rightarrow> fst a | Inl (Inr b) \<Rightarrow> fst b
        | Inr (Inl c) \<Rightarrow> fst c | Inr (Inr d) \<Rightarrow> fst d)") auto

text \<open>\<open>Attribute.Pack(accumulator, attrtype, value)\<close>.\<close>

definition Attribute_Pack ::
  "platform \<Rightarrow> (int \<times> string \<times> parser) list \<Rightarrow> Accumulator \<Rightarrow> int \<Rightarrow> pyval
     \<Rightarrow> error + Accumulator" where
  "Attribute_Pack p attrs accumulator attrtype v =
     (case dict_get attrs attrtype of
        Inl e \<Rightarrow> Inl e
      | Inr entry \<Rightarrow>
          (case Pack p (snd entry) Accumulator_init v of
             Inl e \<Rightarrow> Inl e
           | Inr sub_accumulator \<Rightarrow>
               (let attrlen = int (struct_size p nlattr_fmt) + len_acc sub_accumulator
                in case StructParser_Pack p nlattr_fmt nlattr_fields accumulator
                          [(''len'', attrlen), (''type'', attrtype)] of
                     Inl e \<Rightarrow> Inl e
                   | Inr acc1 \<Rightarrow>
                       (let acc2 = Append acc1 (str_acc sub_accumulator);
                            padding = padding_of attrlen
                        in if padding \<noteq> 0
                           then Inr (Append acc2 (replicate (nat padding) NUL))
                           else Inr acc2))))"

section \<open>Netlink: message framing\<close>

definition NLMSG_F_REQUEST :: int where "NLMSG_F_REQUEST = 0x01"
definition NLMSG_F_MULTI :: int where "NLMSG_F_MULTI = 0x02"
definition NLMSG_DONE :: int where "NLMSG_DONE = 3"

definition Netlink_flags :: "(string \<times> int) list" where
  "Netlink_flags =
     [(''root'', 0x100), (''match'', 0x200), (''atomic'', 0x400), (''dump'', 0x100 OR 0x200)]"

definition nlmsghdr_fmt :: "fmtcode list" where
  "nlmsghdr_fmt = [Fmt_L, Fmt_H, Fmt_H, Fmt_L, Fmt_L]"

definition nlmsghdr_fields :: "string list" where
  "nlmsghdr_fields = [''length'', ''type'', ''flags'', ''seq'', ''pid'']"

fun flag_bits :: "int \<Rightarrow> string list \<Rightarrow> error + int" where
  "flag_bits flagint [] = Inr flagint"
| "flag_bits flagint (f # fs) =
     (case dict_get Netlink_flags f of
        Inl e \<Rightarrow> Inl e
      | Inr b \<Rightarrow> flag_bits (flagint OR b) fs)"

text \<open>\<open>Netlink.Send\<close>: the result is the datagram handed to the socket. The random
  sequence number and the process id come from the environment and are parameters.\<close>

definition Netlink_Send ::
  "platform \<Rightarrow> int \<Rightarrow> int \<Rightarrow> int \<Rightarrow> string list \<Rightarrow> string \<Rightarrow> error + string" where
  "Netlink_Send p seq pid msgtype flags msg =
     (case flag_bits NLMSG_F_REQUEST flags of
        Inl e \<Rightarrow> Inl e
      | Inr flagint \<Rightarrow>
          (case StructParser_Pack p nlmsghdr_fmt nlmsghdr_fields Accumulator_init
                  [(''length'', int (length msg) + int (struct_size p nlmsghdr_fmt)),
                   (''type'', msgtype), (''flags'', flagint), (''seq'', seq), (''pid'', pid)] of
             Inl e \<Rightarrow> Inl e
           | Inr accumulator \<Rightarrow> Inr (str_acc (Append accumulator msg))))"

text \<open>
  \<open>Netlink.Recv\<close> is a generator. Its model is the step \<open>Recv_next\<close>, one call of
  \<open>next()\<close>: it runs the generator from where it is suspended to the next \<open>yield\<close>, to
  its \<open>return\<close>, to an exception, or into a \<open>recv\<close> that never returns. The socket is
  the queue of datagrams still to arrive; \<open>recv(4096)\<close> takes the first and keeps at most
  4096 bytes of it; on an empty queue it blocks.
\<close>

datatype gen_end = StopIteration | Raised error | Blocked

datatype 'a gen_step = Yield 'a | Ends gen_end

datatype recv_state =
    Recv_Start                                  \<comment> \<open>not started: at the head of \<open>while True\<close>\<close>
  | Recv_Yielded Iterator "(string \<times> int) list"  \<comment> \<open>suspended at \<open>yield\<close>, with \<open>iterator\<close> and \<open>myhdr\<close>\<close>
  | Recv_Finished                               \<comment> \<open>returned or raised\<close>

text \<open>The body of the inner loop up to the \<open>yield\<close>, entered with a cursor that is not at
  its end.\<close>

definition Recv_frame ::
  "platform \<Rightarrow> Iterator \<Rightarrow> (int \<times> Iterator) gen_step \<times> recv_state" where
  "Recv_frame p it =
     (case StructParser_Unpack p nlmsghdr_fmt nlmsghdr_fields it of
        Inl e \<Rightarrow> (Ends (Raised e), Recv_Finished)
      | Inr (myhdr, it1) \<Rightarrow>
          (case dict_get myhdr ''type'' of
             Inl e \<Rightarrow> (Ends (Raised e), Recv_Finished)
           | Inr type \<Rightarrow>
               if type = NLMSG_DONE then (Ends StopIteration, Recv_Finished)
               else (case dict_get myhdr ''length'' of
                       Inl e \<Rightarrow> (Ends (Raised e), Recv_Finished)
                     | Inr len \<Rightarrow>
                         (case ExtractIterator it1 (len - int (struct_size p nlmsghdr_fmt)) of
                            Inl e \<Rightarrow> (Ends (Raised e), Recv_Finished)
                          | Inr (payload, it2) \<Rightarrow>
                              (Yield (type, payload), Recv_Yielded it2 myhdr)))))"

text \<open>\<open>Recv_inner\<close> is the test of \<open>while not iterator.AtEnd()\<close>, \<open>Recv_outer\<close> the head of
  \<open>while True\<close>.\<close>

function Recv_inner ::
  "platform \<Rightarrow> Iterator \<Rightarrow> string list
     \<Rightarrow> (int \<times> Iterator) gen_step \<times> recv_state \<times> string list"
and Recv_outer ::
  "platform \<Rightarrow> string list \<Rightarrow> (int \<times> Iterator) gen_step \<times> recv_state \<times> string list"
where
  "Recv_inner p it sock =
     (if AtEnd it then Recv_outer p sock
      else (fst (Recv_frame p it), snd (Recv_frame p it), sock))"
| "Recv_outer p [] = (Ends Blocked, Recv_Start, [])"
| "Recv_outer p (d # sock) =
     (case Iterator_init (take 4096 d) 0 None of
        Inl e \<Rightarrow> (Ends (Raised e), Recv_Finished, sock)
      | Inr it \<Rightarrow> Recv_inner p it sock)"
  by pat_completeness auto
termination
  by (relation "measure (\<lambda>x. case x of Inl a \<Rightarrow> 2 * length (snd (snd a)) + 1
                                      | Inr b \<Rightarrow> 2 * length (snd b))") auto

definition Recv_next ::
  "platform \<Rightarrow> recv_state \<Rightarrow> string list
     \<Rightarrow> (int \<times> Iterator) gen_step \<times> recv_state \<times> string list" where
  "Recv_next p st sock =
     (case st of
        Recv_Start \<Rightarrow> Recv_outer p sock
      | Recv_Yielded it myhdr \<Rightarrow>
          (case dict_get myhdr ''flags'' of
             Inl e \<Rightarrow> (Ends (Raised e), Recv_Finished, sock)
           | Inr flags \<Rightarrow>
               if flags AND NLMSG_F_MULTI = 0 then (Ends StopIteration, Recv_Finished, sock)
               else Recv_inner p it sock)
      | Recv_Finished \<Rightarrow> (Ends StopIteration, Recv_Finished, sock))"

text \<open>\<open>list(Recv())\<close> with fuel: the elements yielded, how the generator ended (\<open>None\<close>
  when the fuel ran out first) and the datagrams left in the queue.\<close>

fun Recv_list ::
  "nat \<Rightarrow> platform \<Rightarrow> recv_state \<Rightarrow> string list
     \<Rightarrow> (int \<times> Iterator) list \<times> gen_end option \<times> string list" where
  "Recv_list 0 p st sock = ([], None, sock)"
| "Recv_list (Suc n) p st sock =
     (case Recv_next p st sock of
        (Yield y, st', sock') \<Rightarrow>
          (case Recv_list n p st' sock' of (ys, e, sock'') \<Rightarrow> (y # ys, e, sock''))
      | (Ends e, st', sock') \<Rightarrow> ([], Some e, sock'))"

section \<open>GenericNetlink: the family registry\<close>

text \<open>
  A family descriptor is a mutable dictionary shared by the list \<open>_msgtypes\<close> and by both
  indices. The list only grows and holds every descriptor ever made, so a descriptor is
  identified by its position in the list: the list is the store, and the indices map a
  key to a position. A write through an index changes the one shared descriptor.
\<close>

record descriptor =
  desc_id :: int
  desc_name :: string
  desc_parser :: "parser option"
  desc_commands :: "(string \<times> int) list option"

record GenericNetlink =
  msgtypes :: "descriptor list"
  msgtypes_by_id :: "(int \<times> nat) list"
  msgtypes_by_name :: "(string \<times> nat) list"

definition op_attr :: parser where
  "op_attr = Attributes [(1, ''id'', u32), (2, ''flags'', u32)]"

definition mcast_grp_attr :: parser where
  "mcast_grp_attr = Attributes [(1, ''name'', string_p), (2, ''id'', u32)]"

definition ctrl_attr :: parser where
  "ctrl_attr = Attributes
     [(1, ''family_id'', u16),
      (2, ''family_name'', string_p),
      (3, ''version'', u32),
      (4, ''hdrsize'', u32),
      (5, ''maxattr'', u32),
      (6, ''ops'', Array op_attr),
      (7, ''mcast_groups'', Array mcast_grp_attr)]"

definition nlctrl :: descriptor where
  "nlctrl = \<lparr>desc_id = 0x10, desc_name = ''nlctrl'', desc_parser = Some ctrl_attr,
             desc_commands = Some [(''newfamily'', 1), (''getfamily'', 3)]\<rparr>"

text \<open>\<open>dict((i[key], i) for i in self._msgtypes)\<close>.\<close>

definition index_by :: "(descriptor \<Rightarrow> 'k) \<Rightarrow> descriptor list \<Rightarrow> ('k \<times> nat) list" where
  "index_by key ds = dict_of (zip (map key ds) [0..<length ds])"

definition UpdateMsgTypes :: "GenericNetlink \<Rightarrow> GenericNetlink" where
  "UpdateMsgTypes g =
     g\<lparr>msgtypes_by_id := index_by desc_id (msgtypes g),
       msgtypes_by_name := index_by desc_name (msgtypes g)\<rparr>"

text \<open>\<open>s.rstrip(c)\<close> for a single character \<open>c\<close>.\<close>

definition rstrip :: "char \<Rightarrow> string \<Rightarrow> string" where
  "rstrip c s = rev (dropWhile (\<lambda>x. x = c) (rev s))"

text \<open>
  One round of the \<open>for msg in self.Recv()\<close> loop of \<open>__init__\<close>, on one decoded
  \<open>(command, attributes)\<close> pair. The control schema decodes \<open>family_name\<close> with the
  string codec and \<open>family_id\<close> with \<open>u16\<close>; the model reads a name that is a \<open>str\<close>
  (anything else has no \<open>rstrip\<close>) and an id that is an \<open>int\<close>, and answers \<open>TypeError\<close>
  to an id of another type, which the control schema cannot produce. Every check comes
  before the one mutation, the \<open>append\<close>.
\<close>

definition attr_int :: "(string \<times> pyval) list \<Rightarrow> string \<Rightarrow> error + int" where
  "attr_int attrs k =
     (case dict_get attrs k of
        Inl e \<Rightarrow> Inl e
      | Inr v \<Rightarrow> (case v of PInt i \<Rightarrow> Inr i | _ \<Rightarrow> Inl TypeError))"

definition newfamily_command :: "GenericNetlink \<Rightarrow> error + int" where
  "newfamily_command g =
     (case dict_get (msgtypes_by_name g) ''nlctrl'' of
        Inl e \<Rightarrow> Inl e
      | Inr k \<Rightarrow>
          (case desc_commands (msgtypes g ! k) of
             None \<Rightarrow> Inl TypeError
           | Some commands \<Rightarrow> dict_get commands ''newfamily''))"

definition bootstrap_msg ::
  "GenericNetlink \<Rightarrow> int \<times> (string \<times> pyval) list \<Rightarrow> error + GenericNetlink" where
  "bootstrap_msg g msg =
     (let msgtype = fst msg; attrs = snd msg
      in case newfamily_command g of
           Inl e \<Rightarrow> Inl e
         | Inr newfamily \<Rightarrow>
             if msgtype \<noteq> newfamily then Inl (UnexpectedCommand msgtype)
             else (case dict_get attrs ''family_name'' of
                     Inl e \<Rightarrow> Inl e
                   | Inr (PStr s) \<Rightarrow>
                       (let family_name = rstrip NUL s
                        in case map_of (msgtypes_by_name g) family_name of
                             Some k \<Rightarrow>
                               (case attr_int attrs ''family_id'' of
                                  Inl e \<Rightarrow> Inl e
                                | Inr family_id \<Rightarrow>
                                    if family_id = desc_id (msgtypes g ! k) then Inr g
                                    else Inl (FamilyIdMismatch family_id))
                           | None \<Rightarrow>
                               (case attr_int attrs ''family_id'' of
                                  Inl e \<Rightarrow> Inl e
                                | Inr family_id \<Rightarrow>
                                    Inr (g\<lparr>msgtypes := msgtypes g @
                                           [\<lparr>desc_id = family_id, desc_name = family_name,
                                             desc_parser = None, desc_commands = None\<rparr>]\<rparr>)))
                   | Inr _ \<Rightarrow> Inl AttributeError))"

text \<open>The loop mutates the registry in place, so an exception leaves the registry as the
  rounds before it made it: the result is the registry together with the exception, if
  any.\<close>

fun bootstrap_loop ::
  "GenericNetlink \<Rightarrow> (int \<times> (string \<times> pyval) list) list \<Rightarrow> GenericNetlink \<times> error option" where
  "bootstrap_loop g [] = (g, None)"
| "bootstrap_loop g (msg # msgs) =
     (case bootstrap_msg g msg of
        Inl e \<Rightarrow> (g, Some e)
      | Inr g' \<Rightarrow> bootstrap_loop g' msgs)"

text \<open>Lines 269 to 284 of \<open>__init__\<close>: rebuild the indices, run the loop over the responses
  to the \<open>getfamily\<close> dump, rebuild the indices. The responses are the decoded
  \<open>(command, attributes)\<close> pairs that \<open>self.Recv()\<close> yields; the request that line 270 sends
  leaves the registry alone.\<close>

definition bootstrap ::
  "GenericNetlink \<Rightarrow> (int \<times> (string \<times> pyval) list) list \<Rightarrow> GenericNetlink \<times> error option" where
  "bootstrap g msgs =
     (case bootstrap_loop (UpdateMsgTypes g) msgs of
        (g', Some e) \<Rightarrow> (g', Some e)
      | (g', None) \<Rightarrow> (UpdateMsgTypes g', None))"

definition GenericNetlink_init ::
  "(int \<times> (string \<times> pyval) list) list \<Rightarrow> GenericNetlink \<times> error option" where
  "GenericNetlink_init msgs =
     bootstrap \<lparr>msgtypes = [nlctrl], msgtypes_by_id = [], msgtypes_by_name = []\<rparr> msgs"

text \<open>\<open>self._msgtypes_by_name[name]\<close>, the lookup that \<open>RegisterMsgType\<close> and \<open>Send\<close> start
  with.\<close>

definition family_by_name :: "GenericNetlink \<Rightarrow> string \<Rightarrow> error + nat" where
  "family_by_name g name = dict_get (msgtypes_by_name g) name"

definition RegisterMsgType ::
  "GenericNetlink \<Rightarrow> string \<Rightarrow> parser \<Rightarrow> (string \<times> int) list \<Rightarrow> error + GenericNetlink" where
  "RegisterMsgType g family_name ps commands =
     (case family_by_name g family_name of
        Inl e \<Rightarrow> Inl e
      | Inr k \<Rightarrow>
          Inr (g\<lparr>msgtypes := (msgtypes g)
                 [k := (msgtypes g ! k)\<lparr>desc_parser := Some ps, desc_commands := Some commands\<rparr>]\<rparr>))"

section \<open>The nl80211 schema\<close>

text \<open>The schema that \<open>RegisterNL80211\<close> attaches to the family \<open>nl80211\<close>.\<close>

definition rate_info :: parser where
  "rate_info = Attributes
     [(1, ''bitrate'', u16), (2, ''mcs'', u8), (4, ''short_gi'', flag), (5, ''bitrate32'', u32),
      (9, ''80p80_mhz_width'', u32), (10, ''160_mhz_width'', u32)]"

definition bss_param :: parser where
  "bss_param = Attributes
     [(2, ''short_preamble'', flag), (3, ''short_slot_time'', flag), (4, ''dtim_period'', u8),
      (5, ''beacon_interval'', u16)]"

definition sta_info :: parser where
  "sta_info = Attributes
     [(1, ''inactive_time'', u32), (2, ''rx_bytes'', u32), (3, ''tx_bytes'', u32),
      (7, ''signal'', u8), (8, ''tx_bitrate'', rate_info), (9, ''rx_packets'', u32),
      (10, ''tx_packets'', u32), (11, ''tx_retries'', u32), (12, ''tx_failed'', u32),
      (13, ''signal_avg'', u8), (14, ''rx_bitrate'', rate_info), (15, ''bss_param'', bss_param),
      (16, ''connected_time'', u32),
      (17, ''sta_flags'', StructParser [Fmt_L, Fmt_L] [''mask'', ''values'']),
      (18, ''beacon_loss'', u32), (23, ''rx_bytes_64'', u64), (24, ''tx_bytes_64'', u64)]"

definition nl80211_attr :: "(int \<times> string \<times> parser) list" where
  "nl80211_attr =
     [(3, ''ifindex'', u32), (6, ''mac'', string_p), (21, ''sta_info'', sta_info),
      (46, ''generation'', u32)]"

section \<open>Statement of the round-trip property\<close>

text \<open>
  The values a field codec is meant for: an integer within the range of the one field of
  a fixed-width scalar, any byte string for the raw-bytes codec, the presence sentinel
  \<open>True\<close> for the flag codec. Struct records, attribute sets and arrays are not field
  codecs.
\<close>

fun legal_value :: "platform \<Rightarrow> parser \<Rightarrow> pyval \<Rightarrow> bool" where
  "legal_value p EmptyParser v = (v = PBool True)"
| "legal_value p StringParser v = (case v of PStr s \<Rightarrow> True | _ \<Rightarrow> False)"
| "legal_value p (SingleStructParser fmt) v =
     (case fmt of
        [c] \<Rightarrow> (case v of PInt i \<Rightarrow> 0 \<le> i \<and> i < 256 ^ fmt_size p c | _ \<Rightarrow> False)
      | _ \<Rightarrow> False)"
| "legal_value p ps v = False"

text \<open>Encode into a fresh accumulator, render it, decode the rendered bytes with a fresh
  cursor over them.\<close>

definition Decode_Encode :: "platform \<Rightarrow> parser \<Rightarrow> pyval \<Rightarrow> (error + pyval \<times> Iterator) option" where
  "Decode_Encode p ps v =
     (case Pack p ps Accumulator_init v of
        Inl e \<Rightarrow> Some (Inl e)
      | Inr accumulator \<Rightarrow>
          (case Iterator_init (str_acc accumulator) 0 None of
             Inl e \<Rightarrow> Some (Inl e)
           | Inr it \<Rightarrow> Unpack 1 p ps it))"

section \<open>Statement of the attribute-set property\<close>

text \<open>
  \<open>decodes p attrs it kvs it'\<close>: starting at \<open>it\<close>, single-attribute decode succeeds again
  and again until the cursor is at its end, giving the \<open>(name, value)\<close> pairs \<open>kvs\<close> in wire
  order and leaving the cursor as \<open>it'\<close>.
\<close>

inductive decodes ::
  "platform \<Rightarrow> (int \<times> string \<times> parser) list \<Rightarrow> Iterator \<Rightarrow> (string \<times> pyval) list \<Rightarrow> Iterator \<Rightarrow> bool"
  for p attrs where
    decodes_end: "AtEnd it \<Longrightarrow> decodes p attrs it [] it"
  | decodes_step:
      "\<not> AtEnd it \<Longrightarrow> Attribute_Unpack n p attrs it = Some (Inr (kv, it1)) \<Longrightarrow>
       decodes p attrs it1 kvs it' \<Longrightarrow> decodes p attrs it (kv # kvs) it'"

section \<open>Statement of the sub-value property\<close>



section \<open>Statement of the framing property\<close>

text \<open>The dictionary \<open>myhdr\<close> that \<open>_nlmsghdr.Unpack\<close> builds from the five header
  fields.\<close>

definition myhdr_of :: "int \<Rightarrow> int \<Rightarrow> int \<Rightarrow> int \<Rightarrow> int \<Rightarrow> (string \<times> int) list" where
  "myhdr_of len type flags sq pid =
     [(''pid'', pid), (''seq'', sq), (''flags'', flags), (''type'', type), (''length'', len)]"

section \<open>Statement of the registry properties\<close>

text \<open>
  The descriptor that the bootstrap loop appends; the name and the id that a response
  carries, as the loop reads them; responses in which no family name comes with two
  different ids; a registry whose two indices are the rebuild of its descriptor list.
\<close>

definition new_family :: "int \<Rightarrow> string \<Rightarrow> descriptor" where
  "new_family i nm = \<lparr>desc_id = i, desc_name = nm, desc_parser = None, desc_commands = None\<rparr>"

definition msg_name :: "int \<times> (string \<times> pyval) list \<Rightarrow> string option" where
  "msg_name msg =
     (case dict_get (snd msg) ''family_name'' of
        Inr (PStr s) \<Rightarrow> Some (rstrip NUL s)
      | _ \<Rightarrow> None)"

definition msg_id :: "int \<times> (string \<times> pyval) list \<Rightarrow> error + int" where
  "msg_id msg = attr_int (snd msg) ''family_id''"

definition consistent_ids :: "(int \<times> (string \<times> pyval) list) list \<Rightarrow> bool" where
  "consistent_ids msgs =
     (\<forall>m1\<in>set msgs. \<forall>m2\<in>set msgs. msg_name m1 = msg_name m2 \<longrightarrow> msg_id m1 = msg_id m2)"

definition in_sync :: "GenericNetlink \<Rightarrow> bool" where
  "in_sync g \<longleftrightarrow>
     msgtypes_by_id g = index_by desc_id (msgtypes g) \<and>
     msgtypes_by_name g = index_by desc_name (msgtypes g)"

section \<open>Wire data of the examples\<close>

text \<open>A little-endian host with a 4-byte \<open>unsigned long\<close>, the cursor that \<open>Iterator(data)\<close>
  builds, and a few attribute units.\<close>

definition host32 :: platform where
  "host32 = \<lparr>model = ILP32, order = LittleEndian\<rparr>"

definition cursor :: "string \<Rightarrow> Iterator" where
  "cursor d = \<lparr>data = d, offset = 0, length_it = int (length d)\<rparr>"

definition two_ifindex :: string where
  "two_ifindex =
     [CHR 0x08, CHR 0x00, CHR 0x03, CHR 0x00, CHR 0x01, CHR 0x00, CHR 0x00, CHR 0x00,
      CHR 0x08, CHR 0x00, CHR 0x03, CHR 0x00, CHR 0x02, CHR 0x00, CHR 0x00, CHR 0x00]"





definition unknown_tag_unit :: Iterator where
  "unknown_tag_unit =
     \<lparr>data = [CHR 0x08, CHR 0x00, CHR 0x07, CHR 0x00, CHR 0x01, CHR 0x02, CHR 0x03, CHR 0x04],
      offset = 0, length_it = 8\<rparr>"

text \<open>Three outer headers for a host with a 16-byte header (a multi-part message of type
  16 with a 4-byte payload, the same without the multi-part flag, the terminal message of
  type 3), and two datagrams made of them.\<close>

definition nlmsg_multi_hdr :: string where
  "nlmsg_multi_hdr =
     [CHR 0x14, CHR 0x00, CHR 0x00, CHR 0x00, CHR 0x10, CHR 0x00, CHR 0x02, CHR 0x00,
      CHR 0x01, CHR 0x00, CHR 0x00, CHR 0x00, CHR 0x00, CHR 0x00, CHR 0x00, CHR 0x00]"

definition nlmsg_single_hdr :: string where
  "nlmsg_single_hdr =
     [CHR 0x14, CHR 0x00, CHR 0x00, CHR 0x00, CHR 0x10, CHR 0x00, CHR 0x00, CHR 0x00,
      CHR 0x01, CHR 0x00, CHR 0x00, CHR 0x00, CHR 0x00, CHR 0x00, CHR 0x00, CHR 0x00]"

definition nlmsg_done_hdr :: string where
  "nlmsg_done_hdr =
     [CHR 0x10, CHR 0x00, CHR 0x00, CHR 0x00, CHR 0x03, CHR 0x00, CHR 0x02, CHR 0x00,
      CHR 0x01, CHR 0x00, CHR 0x00, CHR 0x00, CHR 0x00, CHR 0x00, CHR 0x00, CHR 0x00]"

definition genl_payload :: string where
  "genl_payload = [CHR 0x01, CHR 0x01, CHR 0x00, CHR 0x00]"

definition dgram_two_done :: string where
  "dgram_two_done =
     nlmsg_multi_hdr @ genl_payload @ nlmsg_multi_hdr @ genl_payload @ nlmsg_done_hdr @ []"

definition dgram_single :: string where
  "dgram_single = nlmsg_single_hdr @ genl_payload @ nlmsg_done_hdr"

text \<open>Responses to the \<open>getfamily\<close> dump and the registries they lead to: the registry
  before the bootstrap, after the bootstrap of \<open>family_dump\<close>, inside the loop after its
  second response, and after \<open>RegisterNL80211\<close>.\<close>

definition family_dump :: "(int \<times> (string \<times> pyval) list) list" where
  "family_dump =
     [(1, [(''family_id'', PInt 16), (''family_name'', PStr (''nlctrl'' @ [NUL]))]),
      (1, [(''family_id'', PInt 21), (''family_name'', PStr (''nl80211'' @ [NUL]))])]"

definition clash_dump :: "(int \<times> (string \<times> pyval) list) list" where
  "clash_dump = [(1, [(''family_id'', PInt 16), (''family_name'', PStr (''x'' @ [NUL]))])]"

definition registry0 :: GenericNetlink where
  "registry0 = \<lparr>msgtypes = [nlctrl], msgtypes_by_id = [], msgtypes_by_name = []\<rparr>"

definition registry1 :: GenericNetlink where
  "registry1 =
     \<lparr>msgtypes = [nlctrl, new_family 21 ''nl80211''],
      msgtypes_by_id = [(21, 1), (16, 0)],
      msgtypes_by_name = [(''nl80211'', 1), (''nlctrl'', 0)]\<rparr>"

definition registry_loop :: GenericNetlink where
  "registry_loop =
     \<lparr>msgtypes = [nlctrl, new_family 21 ''nl80211''],
      msgtypes_by_id = [(16, 0)],
      msgtypes_by_name = [(''nlctrl'', 0)]\<rparr>"

definition nl80211_commands :: "(string \<times> int) list" where
  "nl80211_commands = [(''get_station'', 17)]"

definition registry2 :: GenericNetlink where
  "registry2 =
     \<lparr>msgtypes = [nlctrl,
                  \<lparr>desc_id = 21, desc_name = ''nl80211'',
                   desc_parser = Some (Attributes nl80211_attr),
                   desc_commands = Some nl80211_commands\<rparr>],
      msgtypes_by_id = [(21, 1), (16, 0)],
      msgtypes_by_name = [(''nl80211'', 1), (''nlctrl'', 0)]\<rparr>"






section \<open>Packing and unpacking of structs\<close>

lemma length_le_bytes [simp]: "length (le_bytes n v) = n"
  by (induction n arbitrary: v) auto

lemma le_int_le_bytes: "le_int (le_bytes n v) = v mod 256 ^ n"
proof (induction n arbitrary: v)
  case 0
  then show ?case by simp
next
  case (Suc n)
  have "le_int (le_bytes (Suc n) v) = v mod 256 + 256 * ((v div 256) mod 256 ^ n)"
    by (simp add: Suc of_char_of)
  also have "\<dots> = v mod 256 ^ Suc n"
    using zmod_zmult2_eq [of "256 ^ n" v 256] by simp
  finally show ?case .
qed

lemma length_int_bytes [simp]: "length (int_bytes p n v) = n"
  by (simp add: int_bytes_def split: byte_order.split)

lemma bytes_int_int_bytes: "bytes_int p (int_bytes p n v) = v mod 256 ^ n"
  by (simp add: bytes_int_def int_bytes_def le_int_le_bytes split: byte_order.split)

lemma bytes_int_int_bytes_id:
  "0 \<le> v \<Longrightarrow> v < 256 ^ n \<Longrightarrow> bytes_int p (int_bytes p n v) = v"
  by (simp add: bytes_int_int_bytes)

lemma pack_from_length:
  "pack_from p off fmt vs = Inr bs \<Longrightarrow> off + length bs = calcsize_from p off fmt"
proof (induction fmt arbitrary: off vs bs)
  case Nil
  then show ?case by (cases vs) auto
next
  case (Cons c cs)
  show ?case
  proof (cases vs)
    case Nil
    with Cons.prems show ?thesis by simp
  next
    case (Cons v vs')
    with Cons.prems obtain rest where
      r: "pack_from p (off + align_pad off (fmt_size p c) + fmt_size p c) cs vs' = Inr rest"
      and bs: "bs = replicate (align_pad off (fmt_size p c)) NUL @ int_bytes p (fmt_size p c) v @ rest"
      by (auto simp: Let_def split: if_splits sum.splits)
    from Cons.IH [OF r] bs show ?thesis by simp
  qed
qed

lemma unpack_fields_pack_from:
  "pack_from p off fmt vs = Inr bs \<Longrightarrow> unpack_fields p off fmt (bs @ rest) = vs"
proof (induction fmt arbitrary: off vs bs)
  case Nil
  then show ?case by (cases vs) auto
next
  case (Cons c cs)
  show ?case
  proof (cases vs)
    case Nil
    with Cons.prems show ?thesis by simp
  next
    case (Cons v vs')
    with Cons.prems obtain bs' where
      r: "pack_from p (off + align_pad off (fmt_size p c) + fmt_size p c) cs vs' = Inr bs'"
      and bs: "bs = replicate (align_pad off (fmt_size p c)) NUL @ int_bytes p (fmt_size p c) v @ bs'"
      and v: "0 \<le> v" "v < 256 ^ fmt_size p c"
      by (auto simp: Let_def split: if_splits sum.splits)
    from Cons.IH [OF r] bs v Cons show ?thesis
      by (simp add: Let_def bytes_int_int_bytes_id)
  qed
qed

lemma struct_pack_length:
  "struct_pack p fmt vs = Inr bs \<Longrightarrow> length bs = struct_size p fmt"
  using pack_from_length [of p 0 fmt vs bs] by (simp add: struct_pack_def struct_size_def)

lemma unpack_from_struct_pack:
  assumes "struct_pack p fmt vs = Inr bs"
  shows "unpack_from p fmt (pre @ bs @ rest) (int (length pre)) = Inr vs"
proof -
  have len: "length bs = struct_size p fmt"
    using assms by (rule struct_pack_length)
  have "unpack_fields p 0 fmt (bs @ []) = vs"
    using assms unfolding struct_pack_def by (rule unpack_fields_pack_from)
  then show ?thesis
    by (simp add: unpack_from_def Let_def len [symmetric])
qed


lemma align_pad_0 [simp]: "align_pad 0 n = 0"
  by (simp add: align_pad_def)

lemma struct_size_single [simp]: "struct_size p [c] = fmt_size p c"
  by (simp add: struct_size_def)

lemma struct_pack_single:
  "0 \<le> i \<Longrightarrow> i < 256 ^ fmt_size p c \<Longrightarrow>
   struct_pack p [c] [i] = Inr (int_bytes p (fmt_size p c) i)"
  by (simp add: struct_pack_def)

lemma Decode_Encode_single:
  assumes "0 \<le> i" "i < 256 ^ fmt_size p c"
  shows "Decode_Encode p (SingleStructParser [c]) (PInt i) =
         Some (Inr (PInt i, \<lparr>data = int_bytes p (fmt_size p c) i,
                               offset = int (fmt_size p c), length_it = int (fmt_size p c)\<rparr>))"
proof -
  let ?bs = "int_bytes p (fmt_size p c) i"
  have pk: "struct_pack p [c] [i] = Inr ?bs"
    using assms by (rule struct_pack_single)
  have "unpack_from p [c] ([] @ ?bs @ []) (int (length ([] :: string))) = Inr [i]"
    using pk by (rule unpack_from_struct_pack)
  then have up: "unpack_from p [c] ?bs 0 = Inr [i]"
    by simp
  show ?thesis
    by (simp add: Decode_Encode_def pk Accumulator_init_def Append_def str_acc_def
        Iterator_init_def SingleStructParser_Unpack_def up Advance_def Remaining_def)
qed

lemma py_slice_all [simp]: "py_slice s 0 (int (length s)) = s"
  by (simp add: py_slice_def)

lemma Decode_Encode_string:
  "Decode_Encode p StringParser (PStr s) =
     Some (Inr (PStr s, \<lparr>data = s, offset = int (length s), length_it = int (length s)\<rparr>))"
  by (simp add: Decode_Encode_def Accumulator_init_def Append_def str_acc_def
      Iterator_init_def StringParser_Unpack_def Extract_def Advance_def Remaining_def)

lemma Decode_Encode_flag:
  "Decode_Encode p EmptyParser v =
     Some (Inr (PBool True, \<lparr>data = [], offset = 0, length_it = 0\<rparr>))"
  by (simp add: Decode_Encode_def Accumulator_init_def str_acc_def
      Iterator_init_def EmptyParser_Unpack_def)

section \<open>Field codecs\<close>

text \<open>
  Claim C5. For every field codec (a fixed-width scalar of each of the widths \<open>B\<close>, \<open>H\<close>,
  \<open>L\<close>, \<open>Q\<close>, the raw-bytes codec, the flag codec), on every host, and for every legal
  value \<open>v\<close> of that codec, encoding \<open>v\<close> and decoding the bytes produced gives \<open>v\<close>
  again, and the decoder has used up exactly the bytes the encoder wrote.
\<close>

theorem field_codec_roundtrip:
  "legal_value p ps v \<Longrightarrow> \<exists>it. Decode_Encode p ps v = Some (Inr (v, it)) \<and> AtEnd it"
proof (induction p ps v rule: legal_value.induct)
  case (1 p v)
  then show ?case by (simp add: Decode_Encode_flag AtEnd_def Remaining_def)
next
  case (2 p v)
  then show ?case
    by (cases v) (simp_all add: Decode_Encode_string AtEnd_def Remaining_def)
next
  case (3 p fmt v)
  then obtain c i where "fmt = [c]" "v = PInt i" "0 \<le> i" "i < 256 ^ fmt_size p c"
    by (auto split: list.splits pyval.splits)
  then show ?case
    by (simp add: Decode_Encode_single AtEnd_def Remaining_def)
qed simp_all

theorem field_codec_roundtrip_witness:
  "(\<exists>it. Decode_Encode \<lparr>model = ILP32, order = LittleEndian\<rparr> u16 (PInt 513) = Some (Inr (PInt 513, it)) \<and> AtEnd it)
   \<and> (\<exists>it. Decode_Encode \<lparr>model = LP64, order = BigEndian\<rparr> u32 (PInt 16909060) = Some (Inr (PInt 16909060, it)) \<and> AtEnd it)
   \<and> (\<exists>it. Decode_Encode \<lparr>model = ILP32, order = LittleEndian\<rparr> string_p (PStr ''wlan0'') = Some (Inr (PStr ''wlan0'', it)) \<and> AtEnd it)
   \<and> (\<exists>it. Decode_Encode \<lparr>model = ILP32, order = LittleEndian\<rparr> flag (PBool True) = Some (Inr (PBool True, it)) \<and> AtEnd it)"
  using field_codec_roundtrip [of "\<lparr>model = ILP32, order = LittleEndian\<rparr>" u16 "PInt 513"]
        field_codec_roundtrip [of "\<lparr>model = LP64, order = BigEndian\<rparr>" u32 "PInt 16909060"]
        field_codec_roundtrip [of "\<lparr>model = ILP32, order = LittleEndian\<rparr>" string_p "PStr ''wlan0''"]
        field_codec_roundtrip [of "\<lparr>model = ILP32, order = LittleEndian\<rparr>" flag "PBool True"]
  by (simp add: u16_def u32_def string_p_def flag_def)



section \<open>Attribute encode\<close>

lemma and_not_3: "(x::int) AND NOT 3 = 4 * (x div 4)"
proof -
  have *: "Suc (Suc (n - 2)) = n" if "2 \<le> n" for n
    using that by simp
  have "x AND NOT (mask 2) = push_bit 2 (drop_bit 2 x)"
    by (auto simp: bit_eq_iff bit_simps * not_less)
  then show ?thesis
    by (simp add: push_bit_eq_mult drop_bit_eq_div mask_eq_exp_minus_1)
qed

lemma padding_of_eq: "padding_of n = (- n) mod 4"
  unfolding padding_of_def and_not_3 by presburger

lemma padding_of_range: "0 \<le> padding_of n \<and> padding_of n \<le> 3 \<and> (n + padding_of n) mod 4 = 0"
  unfolding padding_of_eq by presburger

lemma struct_size_nlattr [simp]: "struct_size p nlattr_fmt = 4"
  by (simp add: struct_size_def nlattr_fmt_def align_pad_def)

lemma len_acc_str_acc: "len_acc acc = int (length (str_acc acc))"
  by (induction acc) (simp_all add: len_acc_def str_acc_def)

lemma nlattr_Pack:
  assumes "0 \<le> l" "l < 65536" "0 \<le> t" "t < 65536"
  shows "StructParser_Pack p nlattr_fmt nlattr_fields acc [(''len'', l), (''type'', t)] =
         Inr (Append acc (int_bytes p 2 l @ int_bytes p 2 t))"
  using assms
  by (simp add: StructParser_Pack_def nlattr_fields_def nlattr_fmt_def struct_pack_def
      align_pad_def)

lemma Attribute_Pack_layout:
  assumes "map_of attrs attrtype = Some (name, sub_parser)"
    and "Pack p sub_parser Accumulator_init v = Inr sub_accumulator"
    and "payload = str_acc sub_accumulator"
    and "0 \<le> attrtype" "attrtype < 65536" "4 + int (length payload) < 65536"
  shows "\<exists>acc'. Attribute_Pack p attrs accumulator attrtype v = Inr acc' \<and>
           str_acc acc' =
             str_acc accumulator @ int_bytes p 2 (4 + int (length payload)) @ int_bytes p 2 attrtype
               @ payload @ replicate (nat ((- (4 + int (length payload))) mod 4)) NUL"
proof -
  let ?l = "4 + int (length payload)"
  have hdr: "StructParser_Pack p nlattr_fmt nlattr_fields accumulator
               [(''len'', ?l), (''type'', attrtype)] =
             Inr (Append accumulator (int_bytes p 2 ?l @ int_bytes p 2 attrtype))"
    using assms by (intro nlattr_Pack) auto
  show ?thesis
    using assms(1,2,3) hdr
    by (auto simp: Attribute_Pack_def dict_get_def len_acc_str_acc Let_def padding_of_eq
        Append_def str_acc_def)
qed

text \<open>
  The layout of one encoded attribute, on every host: a header of two 16-bit fields, the
  length \<open>4 + payload length\<close> and the type, then the payload, then zero bytes up to the
  next multiple of four.
\<close>

lemma Attribute_Pack_aligned:
  assumes "map_of attrs attrtype = Some (name, sub_parser)"
    and "Pack p sub_parser Accumulator_init v = Inr sub_accumulator"
    and "0 \<le> attrtype" "attrtype < 65536" "4 + int (length (str_acc sub_accumulator)) < 65536"
    and "Attribute_Pack p attrs Accumulator_init attrtype v = Inr acc'"
  shows "length (str_acc acc') mod 4 = 0"
proof -
  let ?n = "length (str_acc sub_accumulator)"
  from Attribute_Pack_layout [OF assms(1,2) refl assms(3,4,5), of Accumulator_init] assms(6)
  have "int (length (str_acc acc')) = 4 + int ?n + (- (4 + int ?n)) mod 4"
    by (simp add: str_acc_def Accumulator_init_def)
  then have "int (length (str_acc acc')) mod 4 = 0"
    by presburger
  then show ?thesis
    by presburger
qed

lemma Attribute_Pack_u32_ILP32:
  "Attribute_Pack \<lparr>model = ILP32, order = LittleEndian\<rparr> nl80211_attr Accumulator_init 3
     (PInt 0x01020304) =
   Inr [[CHR 0x08, CHR 0x00, CHR 0x03, CHR 0x00], [CHR 0x04, CHR 0x03, CHR 0x02, CHR 0x01]]"
  by code_simp

lemma Attribute_Pack_mac:
  "Attribute_Pack \<lparr>model = m, order = LittleEndian\<rparr> nl80211_attr Accumulator_init 6
     (PStr [CHR 0x0A, CHR 0x0B, CHR 0x0C]) =
   Inr [[CHR 0x07, CHR 0x00, CHR 0x06, CHR 0x00], [CHR 0x0A, CHR 0x0B, CHR 0x0C], [CHR 0x00]]"
  by (simp add: Attribute_Pack_def nl80211_attr_def dict_get_def string_p_def
      Accumulator_init_def Append_def len_acc_def str_acc_def nlattr_Pack padding_of_eq
      int_bytes_def char_of_def NUL_def numeral_2_eq_2)

text \<open>
  Claim C1. Attribute encode writes the header \<open>{length = 4 + payload length, type}\<close>,
  the payload and the zero padding; type 6 with a 3-byte payload gives the length field 7
  and 8 wire bytes; type 3 with the \<open>u32\<close> value 0x01020304 gives an 8-byte record. The
  layout and the type 6 example hold on every host (\<open>Attribute_Pack_layout\<close>,
  \<open>Attribute_Pack_mac\<close>) and the type 3 example holds where \<open>unsigned long\<close> has four
  bytes (\<open>Attribute_Pack_u32_ILP32\<close>). On a host where it has eight, the codec named
  \<open>u32\<close> writes eight payload bytes: the record has 12 bytes and its length field is 12.
\<close>

theorem Attribute_Pack_u32_LP64:
  "Attribute_Pack \<lparr>model = LP64, order = LittleEndian\<rparr> nl80211_attr Accumulator_init 3
     (PInt 0x01020304) =
   Inr [[CHR 0x0C, CHR 0x00, CHR 0x03, CHR 0x00],
        [CHR 0x04, CHR 0x03, CHR 0x02, CHR 0x01, CHR 0x00, CHR 0x00, CHR 0x00, CHR 0x00]]"
  by code_simp

section \<open>The outer message header\<close>

lemma nlmsghdr_size_ILP32: "struct_size \<lparr>model = ILP32, order = bo\<rparr> nlmsghdr_fmt = 16"
  by (simp add: struct_size_def nlmsghdr_fmt_def align_pad_def)

lemma pack_from_Cons:
  "0 \<le> v \<Longrightarrow> v < 256 ^ fmt_size p c \<Longrightarrow>
   pack_from p (off + align_pad off (fmt_size p c) + fmt_size p c) cs vs = Inr rest \<Longrightarrow>
   pack_from p off (c # cs) (v # vs) =
     Inr (replicate (align_pad off (fmt_size p c)) NUL @ int_bytes p (fmt_size p c) v @ rest)"
  by (simp add: Let_def)

lemma nlmsghdr_pack_ILP32:
  assumes m: "model p = ILP32"
    and "0 \<le> l" "l < 256 ^ 4" "0 \<le> t" "t < 256 ^ 2" "0 \<le> f" "f < 256 ^ 2"
    and "0 \<le> sq" "sq < 256 ^ 4" "0 \<le> pid" "pid < 256 ^ 4"
  shows "struct_pack p nlmsghdr_fmt [l, t, f, sq, pid] =
         Inr (int_bytes p 4 l @ int_bytes p 2 t @ int_bytes p 2 f @ int_bytes p 4 sq
              @ int_bytes p 4 pid)"
proof -
  have L: "fmt_size p Fmt_L = 4" using m by simp
  have 5: "pack_from p 16 [] [] = Inr []" by simp
  have 4: "pack_from p 12 [Fmt_L] [pid] = Inr (int_bytes p 4 pid)"
    using pack_from_Cons [of pid p Fmt_L 12 "[]" "[]" "[]"] assms(10,11) 5
    by (simp only: L align_pad_def) simp
  have 3: "pack_from p 8 [Fmt_L, Fmt_L] [sq, pid] = Inr (int_bytes p 4 sq @ int_bytes p 4 pid)"
    using pack_from_Cons [of sq p Fmt_L 8 "[Fmt_L]" "[pid]" "int_bytes p 4 pid"] assms(8,9) 4
    by (simp only: L align_pad_def) simp
  have 2: "pack_from p 6 [Fmt_H, Fmt_L, Fmt_L] [f, sq, pid] =
             Inr (int_bytes p 2 f @ int_bytes p 4 sq @ int_bytes p 4 pid)"
    using pack_from_Cons [of f p Fmt_H 6 "[Fmt_L, Fmt_L]" "[sq, pid]"] assms(6,7) 3
    by (simp only: fmt_size.simps align_pad_def) simp
  have 1: "pack_from p 4 [Fmt_H, Fmt_H, Fmt_L, Fmt_L] [t, f, sq, pid] =
             Inr (int_bytes p 2 t @ int_bytes p 2 f @ int_bytes p 4 sq @ int_bytes p 4 pid)"
    using pack_from_Cons [of t p Fmt_H 4 "[Fmt_H, Fmt_L, Fmt_L]" "[f, sq, pid]"] assms(4,5) 2
    by (simp only: fmt_size.simps align_pad_def) simp
  have 0: "pack_from p 0 [Fmt_L, Fmt_H, Fmt_H, Fmt_L, Fmt_L] [l, t, f, sq, pid] =
             Inr (int_bytes p 4 l @ int_bytes p 2 t @ int_bytes p 2 f @ int_bytes p 4 sq
                  @ int_bytes p 4 pid)"
    using pack_from_Cons [of l p Fmt_L 0 "[Fmt_H, Fmt_H, Fmt_L, Fmt_L]" "[t, f, sq, pid]"] assms(2,3) 1
    by (simp only: L align_pad_def) simp
  then show ?thesis
    by (simp only: struct_pack_def nlmsghdr_fmt_def)
qed


lemma nlmsghdr_pack_LP64:
  assumes m: "model p = LP64"
    and "0 \<le> l" "l < 256 ^ 8" "0 \<le> t" "t < 256 ^ 2" "0 \<le> f" "f < 256 ^ 2"
    and "0 \<le> sq" "sq < 256 ^ 8" "0 \<le> pid" "pid < 256 ^ 8"
  shows "struct_pack p nlmsghdr_fmt [l, t, f, sq, pid] =
         Inr (int_bytes p 8 l @ int_bytes p 2 t @ int_bytes p 2 f @ replicate 4 NUL @ int_bytes p 8 sq
              @ int_bytes p 8 pid)"
proof -
  have L: "fmt_size p Fmt_L = 8" using m by simp
  have 5: "pack_from p 32 [] [] = Inr []" by simp
  have 4: "pack_from p 24 [Fmt_L] [pid] = Inr (int_bytes p 8 pid)"
    using pack_from_Cons [of pid p Fmt_L 24 "[]" "[]" "[]"] assms(10,11) 5
    by (simp only: L align_pad_def) simp
  have 3: "pack_from p 12 [Fmt_L, Fmt_L] [sq, pid] = Inr (replicate 4 NUL @ int_bytes p 8 sq @ int_bytes p 8 pid)"
    using pack_from_Cons [of sq p Fmt_L 12 "[Fmt_L]" "[pid]" "int_bytes p 8 pid"] assms(8,9) 4
    by (simp only: L align_pad_def) simp
  have 2: "pack_from p 10 [Fmt_H, Fmt_L, Fmt_L] [f, sq, pid] =
             Inr (int_bytes p 2 f @ replicate 4 NUL @ int_bytes p 8 sq @ int_bytes p 8 pid)"
    using pack_from_Cons [of f p Fmt_H 10 "[Fmt_L, Fmt_L]" "[sq, pid]"] assms(6,7) 3
    by (simp only: fmt_size.simps align_pad_def) simp
  have 1: "pack_from p 8 [Fmt_H, Fmt_H, Fmt_L, Fmt_L] [t, f, sq, pid] =
             Inr (int_bytes p 2 t @ int_bytes p 2 f @ replicate 4 NUL @ int_bytes p 8 sq @ int_bytes p 8 pid)"
    using pack_from_Cons [of t p Fmt_H 8 "[Fmt_H, Fmt_L, Fmt_L]" "[f, sq, pid]"] assms(4,5) 2
    by (simp only: fmt_size.simps align_pad_def) simp
  have 0: "pack_from p 0 [Fmt_L, Fmt_H, Fmt_H, Fmt_L, Fmt_L] [l, t, f, sq, pid] =
             Inr (int_bytes p 8 l @ int_bytes p 2 t @ int_bytes p 2 f @ replicate 4 NUL @ int_bytes p 8 sq
                  @ int_bytes p 8 pid)"
    using pack_from_Cons [of l p Fmt_L 0 "[Fmt_H, Fmt_H, Fmt_L, Fmt_L]" "[t, f, sq, pid]"] assms(2,3) 1
    by (simp only: L align_pad_def) simp
  then show ?thesis
    by (simp only: struct_pack_def nlmsghdr_fmt_def)
qed


text \<open>
  Claim C2. The outer header that the transport packs and unpacks has 16 bytes: length
  (32 bits), type (16 bits), flags (16 bits), sequence (32 bits), pid (32 bits), in that
  order. That is the header of a host where \<open>unsigned long\<close> has four bytes
  (\<open>nlmsghdr_size_ILP32\<close>, \<open>nlmsghdr_pack_ILP32\<close>). Where it has eight, the format
  \<open>LHHLL\<close> makes length, sequence and pid 64-bit fields and puts four bytes of alignment
  after the flags: the header has 32 bytes (\<open>nlmsghdr_pack_LP64\<close>).
\<close>

theorem nlmsghdr_size_LP64: "struct_size \<lparr>model = LP64, order = bo\<rparr> nlmsghdr_fmt = 32"
  by (simp add: struct_size_def nlmsghdr_fmt_def align_pad_def)

section \<open>Attribute decode\<close>

lemma Advance_Inr:
  "Advance it k = Inr it' \<Longrightarrow> k \<le> Remaining it \<and> it' = it\<lparr>offset := offset it + k\<rparr>"
  by (auto simp: Advance_def split: if_splits)

lemma ExtractIterator_Inr:
  "ExtractIterator it k = Inr (sub, it') \<Longrightarrow>
   k \<le> Remaining it \<and> sub = \<lparr>data = data it, offset = offset it, length_it = offset it + k\<rparr>
   \<and> it' = it\<lparr>offset := offset it + k\<rparr>"
  by (auto simp: ExtractIterator_def Iterator_init_def Advance_def Let_def
      split: if_splits sum.splits)

lemma StructParser_Unpack_Inr:
  "StructParser_Unpack p fmt flds it = Inr (d, it') \<Longrightarrow>
   \<exists>vs. unpack_from p fmt (data it) (offset it) = Inr vs \<and> d = dict_of (zip flds vs)
     \<and> int (struct_size p fmt) \<le> Remaining it
     \<and> it' = it\<lparr>offset := offset it + int (struct_size p fmt)\<rparr>"
  by (auto simp: StructParser_Unpack_def dest: Advance_Inr split: sum.splits)

lemma dict_of_two:
  "k1 \<noteq> k2 \<Longrightarrow> dict_of [(k1, a), (k2, b)] = [(k2, b), (k1, a)]"
  by (simp add: dict_of_def dict_update_def)

lemma nlattr_Unpack:
  assumes "unpack_from p nlattr_fmt (data it) (offset it) = Inr [len, type]"
    and "4 \<le> Remaining it"
  shows "StructParser_Unpack p nlattr_fmt nlattr_fields it =
         Inr ([(''type'', type), (''len'', len)], it\<lparr>offset := offset it + 4\<rparr>)"
  using assms
  by (simp add: StructParser_Unpack_def Advance_def nlattr_fields_def dict_of_two)

lemma arrayhdr_Unpack:
  assumes "unpack_from p nlattr_fmt (data it) (offset it) = Inr [len, idx]"
    and "4 \<le> Remaining it"
  shows "StructParser_Unpack p nlattr_fmt arrayhdr_fields it =
         Inr ([(''index'', idx), (''len'', len)], it\<lparr>offset := offset it + 4\<rparr>)"
  using assms
  by (simp add: StructParser_Unpack_def Advance_def arrayhdr_fields_def dict_of_two)

lemma Attribute_head_unknown:
  assumes "unpack_from p nlattr_fmt (data it) (offset it) = Inr [len, type]"
    and "4 \<le> Remaining it"
    and "map_of attrs type = None"
  shows "Attribute_head p attrs it = Inl (UnknownAttribute type len)"
  using assms(3) by (simp add: Attribute_head_def nlattr_Unpack [OF assms(1,2)] dict_get_def)

lemma unpack_from_nlattr:
  "unpack_from p nlattr_fmt d off = Inr vs \<Longrightarrow> \<exists>a b. vs = [a, b]"
  by (auto simp: unpack_from_def nlattr_fmt_def Let_def split: if_splits)

lemma Attribute_head_Inr:
  assumes "Attribute_head p attrs it = Inr h"
  shows "\<exists>len type. unpack_from p nlattr_fmt (data it) (offset it) = Inr [len, type]
           \<and> 4 \<le> Remaining it
           \<and> map_of attrs type = Some (head_name h, head_parser h)
           \<and> head_len h = len
           \<and> len \<le> Remaining it
           \<and> head_sub h = \<lparr>data = data it, offset = offset it + 4, length_it = offset it + len\<rparr>
           \<and> head_rest h = it\<lparr>offset := offset it + len\<rparr>"
proof -
  from assms obtain nlattr it1 where
    u: "StructParser_Unpack p nlattr_fmt nlattr_fields it = Inr (nlattr, it1)"
    by (auto simp: Attribute_head_def split: sum.splits)
  from StructParser_Unpack_Inr [OF u] obtain vs where
    vs: "unpack_from p nlattr_fmt (data it) (offset it) = Inr vs"
    and rem: "4 \<le> Remaining it"
    by auto
  from unpack_from_nlattr [OF vs] obtain len type where "vs = [len, type]"
    by auto
  with vs have v: "unpack_from p nlattr_fmt (data it) (offset it) = Inr [len, type]"
    by simp
  note U = nlattr_Unpack [OF v rem]
  from assms obtain name sub_parser where
    m: "map_of attrs type = Some (name, sub_parser)"
    by (auto simp: Attribute_head_def U dict_get_def split: option.splits)
  from assms m obtain sub it2 where
    e: "ExtractIterator (it\<lparr>offset := offset it + 4\<rparr>) (len - 4) = Inr (sub, it2)"
    and h: "h = \<lparr>head_name = name, head_parser = sub_parser, head_len = len,
                 head_sub = sub, head_rest = it2\<rparr>"
    by (auto simp: Attribute_head_def U dict_get_def split: sum.splits)
  from ExtractIterator_Inr [OF e] h m v rem show ?thesis
    by (auto simp: Remaining_def)
qed

lemma Array_head_Inr:
  assumes "Array_head p it = Inr h"
  shows "\<exists>len idx. unpack_from p nlattr_fmt (data it) (offset it) = Inr [len, idx]
           \<and> 4 \<le> Remaining it
           \<and> len \<le> Remaining it
           \<and> fst h = \<lparr>data = data it, offset = offset it + 4, length_it = offset it + len\<rparr>
           \<and> snd h = it\<lparr>offset := offset it + len\<rparr>"
proof -
  from assms obtain hdr it1 where
    u: "StructParser_Unpack p nlattr_fmt arrayhdr_fields it = Inr (hdr, it1)"
    by (auto simp: Array_head_def split: sum.splits)
  from StructParser_Unpack_Inr [OF u] obtain vs where
    vs: "unpack_from p nlattr_fmt (data it) (offset it) = Inr vs"
    and rem: "4 \<le> Remaining it"
    by auto
  from unpack_from_nlattr [OF vs] obtain len idx where "vs = [len, idx]"
    by auto
  with vs have v: "unpack_from p nlattr_fmt (data it) (offset it) = Inr [len, idx]"
    by simp
  note U = arrayhdr_Unpack [OF v rem]
  from assms have
    e: "ExtractIterator (it\<lparr>offset := offset it + 4\<rparr>) (len - 4) = Inr (fst h, snd h)"
    by (auto simp: Array_head_def U dict_get_def split: sum.splits)
  from ExtractIterator_Inr [OF e] v rem show ?thesis
    by (auto simp: Remaining_def)
qed

text \<open>A decoder moves the offset of its cursor and nothing else.\<close>

lemma Extract_Inr:
  "Extract it k = Inr (s, it') \<Longrightarrow> it' = it\<lparr>offset := offset it + k\<rparr>"
  by (auto simp: Extract_def Advance_def Let_def split: if_splits)

lemma leaf_Unpack_frame:
  "EmptyParser_Unpack it = Inr (v, it') \<Longrightarrow> data it' = data it \<and> length_it it' = length_it it"
  "StringParser_Unpack it = Inr (v, it') \<Longrightarrow> data it' = data it \<and> length_it it' = length_it it"
  "SingleStructParser_Unpack p fmt it = Inr (v, it') \<Longrightarrow>
     data it' = data it \<and> length_it it' = length_it it"
  "StructParser_Unpack p fmt flds it = Inr (d, it') \<Longrightarrow>
     data it' = data it \<and> length_it it' = length_it it"
  by (auto simp: EmptyParser_Unpack_def StringParser_Unpack_def SingleStructParser_Unpack_def
      StructParser_Unpack_def dest!: Extract_Inr Advance_Inr split: sum.splits list.splits)

lemma Attribute_tail_frame:
  "Attribute_tail h r = Inr (kv, it') \<Longrightarrow>
   data it' = data (head_rest h) \<and> length_it it' = length_it (head_rest h) \<and> AtEnd (snd r)"
  by (auto simp: Attribute_tail_def Let_def dest!: Advance_Inr split: if_splits sum.splits)

lemma Unpack_frame:
  "(\<forall>v it'. Unpack n p ps it = Some (Inr (v, it')) \<longrightarrow>
      data it' = data it \<and> length_it it' = length_it it)"
  "(\<forall>kv it'. Attribute_Unpack n p attrs it = Some (Inr (kv, it')) \<longrightarrow>
      data it' = data it \<and> length_it it' = length_it it)"
  "(\<forall>v it'. Attributes_loop n p attrs ret it = Some (Inr (v, it')) \<longrightarrow>
      data it' = data it \<and> length_it it' = length_it it)"
  "(\<forall>v it'. Array_loop n p child aret it = Some (Inr (v, it')) \<longrightarrow>
      data it' = data it \<and> length_it it' = length_it it)"
proof (induction n p ps it and n p attrs it and n p attrs ret it and n p child aret it
    rule: Unpack_Attribute_Unpack_Attributes_loop_Array_loop.induct)
  case (2 n p it)
  show ?case
    using leaf_Unpack_frame(1) by simp
next
  case (3 n p it)
  show ?case
    using leaf_Unpack_frame(2) by simp
next
  case (4 n p fmt it)
  show ?case
    using leaf_Unpack_frame(3) by simp
next
  case (5 n p fmt flds it)
  show ?case
  proof (intro allI impI)
    fix v it'
    assume "Unpack (Suc n) p (StructParser fmt flds) it = Some (Inr (v, it'))"
    then obtain d where "StructParser_Unpack p fmt flds it = Inr (d, it')"
      by (auto split: sum.splits)
    then show "data it' = data it \<and> length_it it' = length_it it"
      by (rule leaf_Unpack_frame(4))
  qed
next
  case (9 n p attrs it)
  show ?case
  proof (intro allI impI)
    fix kv it'
    assume a: "Attribute_Unpack (Suc n) p attrs it = Some (Inr (kv, it'))"
    then obtain h r where h: "Attribute_head p attrs it = Inr h"
      and t: "Attribute_tail h r = Inr (kv, it')"
      by (auto split: sum.splits option.splits)
    from Attribute_head_Inr [OF h] Attribute_tail_frame [OF t]
    show "data it' = data it \<and> length_it it' = length_it it"
      by auto
  qed
next
  case (11 n p attrs ret it)
  show ?case
  proof (intro allI impI)
    fix v it'
    assume a: "Attributes_loop (Suc n) p attrs ret it = Some (Inr (v, it'))"
    show "data it' = data it \<and> length_it it' = length_it it"
    proof (cases "AtEnd it")
      case True
      with a show ?thesis by simp
    next
      case False
      with a obtain r where r: "Attribute_Unpack n p attrs it = Some (Inr r)"
        and l: "Attributes_loop n p attrs (dict_update (fst (fst r)) (snd (fst r)) ret) (snd r)
                  = Some (Inr (v, it'))"
        by (auto split: sum.splits option.splits)
      from "11.IH"(1) [OF False] r have "data (snd r) = data it \<and> length_it (snd r) = length_it it"
        by (cases r) auto
      moreover from "11.IH"(2) [OF False r refl] l
      have "data it' = data (snd r) \<and> length_it it' = length_it (snd r)"
        by auto
      ultimately show ?thesis by simp
    qed
  qed
next
  case (13 n p child aret it)
  show ?case
  proof (intro allI impI)
    fix v it'
    assume a: "Array_loop (Suc n) p child aret it = Some (Inr (v, it'))"
    show "data it' = data it \<and> length_it it' = length_it it"
    proof (cases "AtEnd it")
      case True
      with a show ?thesis by simp
    next
      case False
      with a obtain h r where h: "Array_head p it = Inr h"
        and r: "Unpack n p child (fst h) = Some (Inr r)"
        and e: "AtEnd (snd r)"
        and l: "Array_loop n p child (aret @ [fst r]) (snd h) = Some (Inr (v, it'))"
        by (auto split: sum.splits option.splits if_splits)
      from "13.IH"(2) [OF False h r refl] e l
      have "data it' = data (snd h) \<and> length_it it' = length_it (snd h)"
        by auto
      with Array_head_Inr [OF h] show ?thesis by auto
    qed
  qed
next
  case (6 n p attrs it)
  then show ?case by (simp only: Unpack.simps) 
next
  case (7 n p child it)
  then show ?case by (simp only: Unpack.simps)
qed (simp_all only: Unpack.simps Attribute_Unpack.simps Attributes_loop.simps Array_loop.simps
       option.simps simp_thms)

text \<open>
  Claim C6. When the type tag of a unit has no entry in the schema, attribute decode
  fails with the error that carries the type and the length, and the attribute-set
  decode around it stops with that error.
\<close>

theorem unknown_attribute_aborts:
  assumes "unpack_from p nlattr_fmt (data it) (offset it) = Inr [len, type]"
    and "4 \<le> Remaining it"
    and "map_of attrs type = None"
  shows "Attribute_Unpack (Suc n) p attrs it = Some (Inl (UnknownAttribute type len))
       \<and> Attributes_loop (Suc (Suc n)) p attrs ret it = Some (Inl (UnknownAttribute type len))
       \<and> Unpack (Suc (Suc (Suc n))) p (Attributes attrs) it
           = Some (Inl (UnknownAttribute type len))"
proof -
  have h: "Attribute_head p attrs it = Inl (UnknownAttribute type len)"
    using assms by (rule Attribute_head_unknown)
  have ne: "\<not> AtEnd it"
    using assms(2) by (simp add: AtEnd_def)
  have a: "Attribute_Unpack (Suc n) p attrs it = Some (Inl (UnknownAttribute type len))" for n
    by (simp add: h)
  have l: "Attributes_loop (Suc (Suc n)) p attrs ret it = Some (Inl (UnknownAttribute type len))"
    for ret
    by (simp add: ne a del: Attribute_Unpack.simps)
  show ?thesis
    using a l by (simp del: Attribute_Unpack.simps Attributes_loop.simps)
qed

theorem unknown_attribute_aborts_witness:
  "Unpack 3 \<lparr>model = ILP32, order = LittleEndian\<rparr> (Attributes nl80211_attr) unknown_tag_unit
     = Some (Inl (UnknownAttribute 7 8))"
proof -
  let ?p = "\<lparr>model = ILP32, order = LittleEndian\<rparr>"
  have 1: "unpack_from ?p nlattr_fmt (data unknown_tag_unit) (offset unknown_tag_unit) = Inr [8, 7]"
    by code_simp
  have 2: "4 \<le> Remaining unknown_tag_unit"
    by code_simp
  have 3: "map_of nl80211_attr 7 = None"
    by code_simp
  from unknown_attribute_aborts [OF 1 2 3, of 0] show ?thesis
    by (simp add: numeral_3_eq_3 del: Unpack.simps Attribute_Unpack.simps Attributes_loop.simps)
qed




lemma Array_consumes_exactly:
  assumes ne: "\<not> AtEnd it"
    and a: "Array_loop (Suc n) p child ret it = Some (Inr r)"
  shows "\<exists>len idx h v sub'. unpack_from p nlattr_fmt (data it) (offset it) = Inr [len, idx]
           \<and> Array_head p it = Inr h
           \<and> Unpack n p child (fst h) = Some (Inr (v, sub'))
           \<and> Remaining (fst h) = len - 4
           \<and> offset sub' - offset (fst h) = len - 4"
proof -
  from ne a obtain h r' where h: "Array_head p it = Inr h"
    and u: "Unpack n p child (fst h) = Some (Inr r')"
    and e: "AtEnd (snd r')"
    by (auto split: sum.splits option.splits if_splits)
  obtain v sub' where r: "r' = (v, sub')" by (cases r')
  from Unpack_frame(1) [of n p child "fst h"] u r
  have f: "length_it sub' = length_it (fst h)" by simp
  from Array_head_Inr [OF h] obtain len idx where
    v: "unpack_from p nlattr_fmt (data it) (offset it) = Inr [len, idx]"
    and s: "fst h = \<lparr>data = data it, offset = offset it + 4, length_it = offset it + len\<rparr>"
    by auto
  from s have b: "Remaining (fst h) = len - 4"
    by (simp add: Remaining_def)
  from e r f b have "offset sub' - offset (fst h) = len - 4"
    by (simp add: AtEnd_def Remaining_def)
  with v h u r b show ?thesis by blast
qed

























section \<open>Attribute-set decode\<close>

lemma map_of_dict_update: "map_of (dict_update k v d) = (map_of d)(k \<mapsto> v)"
proof -
  have "map_of (filter (\<lambda>kv. fst kv \<noteq> k) d) k' = (if k' = k then None else map_of d k')" for k'
    by (induction d) auto
  then show ?thesis
    by (auto simp: dict_update_def fun_eq_iff)
qed

lemma Attributes_loop_decodes:
  "Attributes_loop n p attrs ret it = Some (Inr (v, it')) \<Longrightarrow>
   AtEnd it' \<and> (\<exists>kvs d. decodes p attrs it kvs it' \<and> v = PDict d
                  \<and> map_of d = map_of (rev kvs @ ret))"
proof (induction n arbitrary: ret it)
  case 0
  then show ?case by simp
next
  case (Suc n)
  show ?case
  proof (cases "AtEnd it")
    case True
    with Suc.prems have "v = PDict ret" "it' = it" by simp_all
    with True show ?thesis
      by (auto intro: decodes_end)
  next
    case False
    with Suc.prems obtain kv it1 where
      a: "Attribute_Unpack n p attrs it = Some (Inr (kv, it1))"
      and l: "Attributes_loop n p attrs (dict_update (fst kv) (snd kv) ret) it1 = Some (Inr (v, it'))"
      by (auto split: sum.splits option.splits)
    from Suc.IH [OF l] obtain kvs d where e: "AtEnd it'"
      and r: "decodes p attrs it1 kvs it'" and d: "v = PDict d"
      and m: "map_of d = map_of (rev kvs @ dict_update (fst kv) (snd kv) ret)"
      by auto
    have "decodes p attrs it (kv # kvs) it'"
      using False a r by (rule decodes_step)
    moreover have "map_of d = map_of (rev (kv # kvs) @ ret)"
      unfolding m by (cases kv) (simp add: map_of_append map_of_dict_update)
    ultimately show ?thesis
      using e d by blast
  qed
qed

lemma map_of_rev_last:
  assumes "kvs = pre @ (k, x) # post" "k \<notin> fst ` set post"
  shows "map_of (rev kvs) k = Some x"
proof -
  have "map_of (rev post) k = None"
    using assms(2) by (simp add: map_of_eq_None_iff)
  then show ?thesis
    by (simp add: assms(1) map_add_def)
qed

text \<open>
  Claim C7. When attribute-set decode succeeds, the cursor is at its end, the result is
  the merge of the single-attribute decodes of the region in wire order, and where several
  attributes carry the same name the value of the last one is the one in the mapping.
\<close>

theorem Attributes_Unpack_last_wins:
  assumes "Unpack n p (Attributes attrs) it = Some (Inr (v, it'))"
  shows "AtEnd it' \<and>
         (\<exists>kvs d. decodes p attrs it kvs it' \<and> v = PDict d
            \<and> map_of d = map_of (rev kvs)
            \<and> (\<forall>pre k x post. kvs = pre @ (k, x) # post \<and> k \<notin> fst ` set post
                   \<longrightarrow> map_of d k = Some x))"
proof -
  from assms obtain m where "Attributes_loop m p attrs [] it = Some (Inr (v, it'))"
    by (cases n) auto
  from Attributes_loop_decodes [OF this] obtain kvs d where
    "AtEnd it'" "decodes p attrs it kvs it'" "v = PDict d" "map_of d = map_of (rev kvs)"
    by auto
  then show ?thesis
    using map_of_rev_last by metis
qed

theorem Attributes_Unpack_last_wins_witness:
  "Unpack 5 host32 (Attributes nl80211_attr) (cursor two_ifindex)
     = Some (Inr (PDict [(''ifindex'', PInt 2)], \<lparr>data = two_ifindex, offset = 16, length_it = 16\<rparr>))
   \<and> AtEnd \<lparr>data = two_ifindex, offset = 16, length_it = 16\<rparr>
   \<and> (\<exists>kvs d. decodes host32 nl80211_attr (cursor two_ifindex) kvs
                 \<lparr>data = two_ifindex, offset = 16, length_it = 16\<rparr>
          \<and> PDict [(''ifindex'', PInt 2)] = PDict d
          \<and> map_of d = map_of (rev kvs)
          \<and> (\<forall>pre k x post. kvs = pre @ (k, x) # post \<and> k \<notin> fst ` set post
                 \<longrightarrow> map_of d k = Some x))"
proof -
  have h: "Unpack 5 host32 (Attributes nl80211_attr) (cursor two_ifindex)
     = Some (Inr (PDict [(''ifindex'', PInt 2)], \<lparr>data = two_ifindex, offset = 16, length_it = 16\<rparr>))"
    by code_simp
  from Attributes_Unpack_last_wins [OF h] h show ?thesis
    by simp
qed

text \<open>
  The fuel is needed: a unit of declared length 0 whose tag has the raw-bytes codec decodes
  to the empty string and leaves the cursor where it was, so the attribute-set loop over
  it returns for no amount of fuel.
\<close>

lemma zero_length_unit:
  "Attribute_Unpack (Suc (Suc n)) host32 [(6, ''mac'', string_p)]
     \<lparr>data = [CHR 0x00, CHR 0x00, CHR 0x06, CHR 0x00], offset = 0, length_it = 4\<rparr>
   = Some (Inr ((''mac'', PStr []),
        \<lparr>data = [CHR 0x00, CHR 0x00, CHR 0x06, CHR 0x00], offset = 0, length_it = 4\<rparr>))"
proof -
  let ?it = "\<lparr>data = [CHR 0x00, CHR 0x00, CHR 0x06, CHR 0x00], offset = 0, length_it = 4\<rparr>"
  let ?sub = "\<lparr>data = [CHR 0x00, CHR 0x00, CHR 0x06, CHR 0x00], offset = 4, length_it = 0\<rparr>"
  let ?h = "\<lparr>head_name = ''mac'', head_parser = string_p, head_len = 0,
             head_sub = ?sub, head_rest = ?it\<rparr>"
  have h: "Attribute_head host32 [(6, ''mac'', string_p)] ?it = Inr ?h"
    by code_simp
  have u: "Unpack (Suc n) host32 string_p ?sub =
             Some (Inr (PStr [], \<lparr>data = [CHR 0x00, CHR 0x00, CHR 0x06, CHR 0x00], offset = 0, length_it = 0\<rparr>))"
    by (simp add: string_p_def StringParser_Unpack_def Extract_def Advance_def Remaining_def
        py_slice_def)
  have t: "Attribute_tail ?h (PStr [], \<lparr>data = [CHR 0x00, CHR 0x00, CHR 0x06, CHR 0x00], offset = 0, length_it = 0\<rparr>)
             = Inr ((''mac'', PStr []), ?it)"
    by code_simp
  show ?thesis
    by (simp add: h u t del: Unpack.simps)
qed

lemma Attributes_loop_no_progress:
  "Attributes_loop n host32 [(6, ''mac'', string_p)] ret
     \<lparr>data = [CHR 0x00, CHR 0x00, CHR 0x06, CHR 0x00], offset = 0, length_it = 4\<rparr> = None"
proof (induction n arbitrary: ret rule: less_induct)
  case (less n)
  let ?it = "\<lparr>data = [CHR 0x00, CHR 0x00, CHR 0x06, CHR 0x00], offset = 0, length_it = 4\<rparr>"
  have ne: "\<not> AtEnd ?it"
    by (simp add: AtEnd_def Remaining_def)
  show ?case
  proof (cases n)
    case 0
    then show ?thesis by simp
  next
    case (Suc m)
    show ?thesis
    proof (cases m)
      case 0
      with Suc ne show ?thesis by simp
    next
      case (Suc k)
      show ?thesis
      proof (cases k)
        case 0
        have "Attribute_Unpack (Suc 0) host32 [(6, ''mac'', string_p)] ?it = None"
          by code_simp
        with 0 \<open>m = Suc k\<close> \<open>n = Suc m\<close> ne show ?thesis
          by (simp del: Attribute_Unpack.simps)
      next
        case (Suc j)
        with \<open>m = Suc k\<close> \<open>n = Suc m\<close> have n: "n = Suc (Suc (Suc j))" by simp
        have "Attributes_loop (Suc (Suc j)) host32 [(6, ''mac'', string_p)]
                (dict_update ''mac'' (PStr []) ret) ?it = None"
          using less.IH [of "Suc (Suc j)"] n by simp
        then show ?thesis
          unfolding n
          by (simp add: ne zero_length_unit del: Attribute_Unpack.simps)
      qed
    qed
  qed
qed

section \<open>Netlink.Recv\<close>

lemma nlmsghdr_Unpack:
  assumes "unpack_from p nlmsghdr_fmt (data it) (offset it) = Inr [len, type, flags, sq, pid]"
    and "int (struct_size p nlmsghdr_fmt) \<le> Remaining it"
  shows "StructParser_Unpack p nlmsghdr_fmt nlmsghdr_fields it =
         Inr (myhdr_of len type flags sq pid,
              it\<lparr>offset := offset it + int (struct_size p nlmsghdr_fmt)\<rparr>)"
  using assms
  by (simp add: StructParser_Unpack_def Advance_def nlmsghdr_fields_def dict_of_def
      dict_update_def myhdr_of_def)

lemma myhdr_get [simp]:
  "dict_get (myhdr_of len type flags sq pid) ''type'' = Inr type"
  "dict_get (myhdr_of len type flags sq pid) ''length'' = Inr len"
  "dict_get (myhdr_of len type flags sq pid) ''flags'' = Inr flags"
  by (simp_all add: dict_get_def myhdr_of_def)

lemma Recv_frame_done:
  assumes "unpack_from p nlmsghdr_fmt (data it) (offset it) = Inr [len, type, flags, sq, pid]"
    and "int (struct_size p nlmsghdr_fmt) \<le> Remaining it"
    and "type = NLMSG_DONE"
  shows "Recv_frame p it = (Ends StopIteration, Recv_Finished)"
  using assms(3) by (simp add: Recv_frame_def nlmsghdr_Unpack [OF assms(1,2)])

lemma Recv_frame_yield:
  assumes "unpack_from p nlmsghdr_fmt (data it) (offset it) = Inr [len, type, flags, sq, pid]"
    and "int (struct_size p nlmsghdr_fmt) \<le> Remaining it"
    and "type \<noteq> NLMSG_DONE"
    and "len \<le> Remaining it"
    and "length_it it \<le> int (length (data it))"
  shows "Recv_frame p it =
           (Yield (type, \<lparr>data = data it,
                          offset = offset it + int (struct_size p nlmsghdr_fmt),
                          length_it = offset it + len\<rparr>),
            Recv_Yielded (it\<lparr>offset := offset it + len\<rparr>) (myhdr_of len type flags sq pid))"
  using assms(3,4,5)
  by (simp add: Recv_frame_def nlmsghdr_Unpack [OF assms(1,2)] ExtractIterator_def
      Iterator_init_def Advance_def Remaining_def)

lemma Recv_inner_not_at_end:
  "\<not> AtEnd it \<Longrightarrow> Recv_inner p it sock = (fst (Recv_frame p it), snd (Recv_frame p it), sock)"
  by simp

lemma Recv_next_resume:
  "Recv_next p (Recv_Yielded it (myhdr_of len type flags sq pid)) sock =
     (if flags AND NLMSG_F_MULTI = 0 then (Ends StopIteration, Recv_Finished, sock)
      else Recv_inner p it sock)"
  by (simp add: Recv_next_def)

lemma Recv_next_start:
  "length d \<le> 4096 \<Longrightarrow>
   Recv_next p Recv_Start (d # sock) =
     Recv_inner p \<lparr>data = d, offset = 0, length_it = int (length d)\<rparr> sock"
  by (simp add: Recv_next_def Iterator_init_def)


lemma nlmsghdr_size_pos: "0 < struct_size p nlmsghdr_fmt"
  by (cases "model p") (simp_all add: struct_size_def nlmsghdr_fmt_def align_pad_def)

lemma Recv_inner_msg:
  assumes pk: "struct_pack p nlmsghdr_fmt [len, t, f, sq, pid] = Inr hdr"
    and len: "len = int (length hdr) + int (length pl)"
    and d: "d = pre @ hdr @ pl @ rest"
    and t: "t \<noteq> NLMSG_DONE"
  shows "Recv_inner p \<lparr>data = d, offset = int (length pre), length_it = int (length d)\<rparr> sock =
           (Yield (t, \<lparr>data = d, offset = int (length pre) + int (length hdr),
                       length_it = int (length pre) + len\<rparr>),
            Recv_Yielded \<lparr>data = d, offset = int (length pre) + len, length_it = int (length d)\<rparr>
              (myhdr_of len t f sq pid),
            sock)"
proof -
  let ?it = "\<lparr>data = d, offset = int (length pre), length_it = int (length d)\<rparr>"
  have hs: "length hdr = struct_size p nlmsghdr_fmt"
    using pk by (rule struct_pack_length)
  have u: "unpack_from p nlmsghdr_fmt (data ?it) (offset ?it) = Inr [len, t, f, sq, pid]"
    using unpack_from_struct_pack [OF pk, of pre "pl @ rest"] by (simp add: d)
  have r: "int (struct_size p nlmsghdr_fmt) \<le> Remaining ?it"
    by (simp add: Remaining_def d hs)
  have ne: "\<not> AtEnd ?it"
    using r nlmsghdr_size_pos [of p] by (simp add: AtEnd_def)
  have l: "len \<le> Remaining ?it"
    by (simp add: Remaining_def d len)
  have "Recv_frame p ?it =
          (Yield (t, \<lparr>data = data ?it,
                       offset = offset ?it + int (struct_size p nlmsghdr_fmt),
                       length_it = offset ?it + len\<rparr>),
           Recv_Yielded (?it\<lparr>offset := offset ?it + len\<rparr>) (myhdr_of len t f sq pid))"
    using u r t l by (rule Recv_frame_yield) simp
  then show ?thesis
    by (simp add: Recv_inner_not_at_end [OF ne] hs del: Recv_inner.simps)
qed

lemma Recv_inner_done_msg:
  assumes pk: "struct_pack p nlmsghdr_fmt [len, NLMSG_DONE, f, sq, pid] = Inr hdr"
    and d: "d = pre @ hdr @ rest"
  shows "Recv_inner p \<lparr>data = d, offset = int (length pre), length_it = int (length d)\<rparr> sock =
           (Ends StopIteration, Recv_Finished, sock)"
proof -
  let ?it = "\<lparr>data = d, offset = int (length pre), length_it = int (length d)\<rparr>"
  have hs: "length hdr = struct_size p nlmsghdr_fmt"
    using pk by (rule struct_pack_length)
  have u: "unpack_from p nlmsghdr_fmt (data ?it) (offset ?it) = Inr [len, NLMSG_DONE, f, sq, pid]"
    using unpack_from_struct_pack [OF pk, of pre rest] by (simp add: d)
  have r: "int (struct_size p nlmsghdr_fmt) \<le> Remaining ?it"
    by (simp add: Remaining_def d hs)
  have ne: "\<not> AtEnd ?it"
    using r nlmsghdr_size_pos [of p] by (simp add: AtEnd_def)
  have "Recv_frame p ?it = (Ends StopIteration, Recv_Finished)"
    using u r by (rule Recv_frame_done) simp
  then show ?thesis
    by (simp add: Recv_inner_not_at_end [OF ne] del: Recv_inner.simps)
qed

lemma Recv_two_then_done:
  assumes p1: "struct_pack p nlmsghdr_fmt [len1, t1, f1, sq1, pid1] = Inr hdr1"
    and p2: "struct_pack p nlmsghdr_fmt [len2, t2, f2, sq2, pid2] = Inr hdr2"
    and p3: "struct_pack p nlmsghdr_fmt [len3, NLMSG_DONE, f3, sq3, pid3] = Inr hdr3"
    and l1: "len1 = int (length hdr1) + int (length pl1)"
    and l2: "len2 = int (length hdr2) + int (length pl2)"
    and t: "t1 \<noteq> NLMSG_DONE" "t2 \<noteq> NLMSG_DONE"
    and m: "f1 AND NLMSG_F_MULTI \<noteq> 0" "f2 AND NLMSG_F_MULTI \<noteq> 0"
    and d: "d = hdr1 @ pl1 @ hdr2 @ pl2 @ hdr3 @ rest"
    and sz: "length d \<le> 4096"
  shows "Recv_list (Suc (Suc (Suc n))) p Recv_Start (d # sock) =
           ([(t1, \<lparr>data = d, offset = int (length hdr1), length_it = len1\<rparr>),
             (t2, \<lparr>data = d, offset = len1 + int (length hdr2), length_it = len1 + len2\<rparr>)],
            Some StopIteration, sock)"
proof -
  let ?c = "\<lambda>off. \<lparr>data = d, offset = off, length_it = int (length d)\<rparr>"
  have d1: "d = [] @ hdr1 @ pl1 @ (hdr2 @ pl2 @ hdr3 @ rest)"
    and d2: "d = (hdr1 @ pl1) @ hdr2 @ pl2 @ (hdr3 @ rest)"
    and d3: "d = (hdr1 @ pl1 @ hdr2 @ pl2) @ hdr3 @ rest"
    using d by simp_all
  have s1: "Recv_next p Recv_Start (d # sock) =
              (Yield (t1, \<lparr>data = d, offset = int (length hdr1), length_it = len1\<rparr>),
               Recv_Yielded (?c len1) (myhdr_of len1 t1 f1 sq1 pid1), sock)"
    using Recv_inner_msg [OF p1 l1 d1 t(1), of sock]
    by (simp add: Recv_next_start [OF sz] del: Recv_inner.simps)
  have s2: "Recv_next p (Recv_Yielded (?c len1) (myhdr_of len1 t1 f1 sq1 pid1)) sock =
              (Yield (t2, \<lparr>data = d, offset = len1 + int (length hdr2), length_it = len1 + len2\<rparr>),
               Recv_Yielded (?c (len1 + len2)) (myhdr_of len2 t2 f2 sq2 pid2), sock)"
    using Recv_inner_msg [OF p2 l2 d2 t(2), of sock] m(1)
    by (simp add: Recv_next_resume l1 del: Recv_inner.simps)
  have s3: "Recv_next p (Recv_Yielded (?c (len1 + len2)) (myhdr_of len2 t2 f2 sq2 pid2)) sock =
              (Ends StopIteration, Recv_Finished, sock)"
    using Recv_inner_done_msg [OF p3 d3, of sock] m(2)
    by (simp add: Recv_next_resume l1 l2 add.assoc del: Recv_inner.simps)
  show ?thesis
    by (simp add: s1 s2 s3)
qed

lemma Recv_single:
  assumes p1: "struct_pack p nlmsghdr_fmt [len1, t1, f1, sq1, pid1] = Inr hdr1"
    and l1: "len1 = int (length hdr1) + int (length pl1)"
    and t: "t1 \<noteq> NLMSG_DONE"
    and m: "f1 AND NLMSG_F_MULTI = 0"
    and d: "d = hdr1 @ pl1 @ rest"
    and sz: "length d \<le> 4096"
  shows "Recv_list (Suc (Suc n)) p Recv_Start (d # sock) =
           ([(t1, \<lparr>data = d, offset = int (length hdr1), length_it = len1\<rparr>)],
            Some StopIteration, sock)"
proof -
  let ?c = "\<lambda>off. \<lparr>data = d, offset = off, length_it = int (length d)\<rparr>"
  have d1: "d = [] @ hdr1 @ pl1 @ rest"
    using d by simp
  have s1: "Recv_next p Recv_Start (d # sock) =
              (Yield (t1, \<lparr>data = d, offset = int (length hdr1), length_it = len1\<rparr>),
               Recv_Yielded (?c len1) (myhdr_of len1 t1 f1 sq1 pid1), sock)"
    using Recv_inner_msg [OF p1 l1 d1 t, of sock]
    by (simp add: Recv_next_start [OF sz] del: Recv_inner.simps)
  have s2: "Recv_next p (Recv_Yielded (?c len1) (myhdr_of len1 t1 f1 sq1 pid1)) sock =
              (Ends StopIteration, Recv_Finished, sock)"
    using m by (simp add: Recv_next_resume)
  show ?thesis
    by (simp add: s1 s2)
qed


text \<open>
  Claim C3. \<open>Recv\<close> frames the sub-messages of a datagram in order. A sub-message of type
  3 ends the sequence, whatever follows it in the datagram. Any other sub-message is
  yielded as \<open>(type, payload cursor)\<close>; at the next pull the sequence ends if the
  multi-part flag of that message is clear, and goes on framing behind the message
  otherwise. A datagram of two sub-messages that do not end the sequence (type other than
  3, multi-part flag set) followed by a message of type 3 yields exactly those two and
  stops. A single message of a type other than 3 with the multi-part flag clear yields
  exactly one element and stops, and the datagrams behind it stay in the socket.
\<close>

theorem Recv_framing:
  "(unpack_from p nlmsghdr_fmt (data it) (offset it) = Inr [len, type, flags, sq, pid]
      \<and> int (struct_size p nlmsghdr_fmt) \<le> Remaining it \<and> type = NLMSG_DONE \<longrightarrow>
    Recv_inner p it sock = (Ends StopIteration, Recv_Finished, sock))
   \<and> (unpack_from p nlmsghdr_fmt (data it) (offset it) = Inr [len, type, flags, sq, pid]
      \<and> int (struct_size p nlmsghdr_fmt) \<le> Remaining it \<and> type \<noteq> NLMSG_DONE
      \<and> len \<le> Remaining it \<and> length_it it \<le> int (length (data it)) \<longrightarrow>
    Recv_inner p it sock =
      (Yield (type, \<lparr>data = data it, offset = offset it + int (struct_size p nlmsghdr_fmt),
                     length_it = offset it + len\<rparr>),
       Recv_Yielded (it\<lparr>offset := offset it + len\<rparr>) (myhdr_of len type flags sq pid), sock)
    \<and> Recv_next p (Recv_Yielded (it\<lparr>offset := offset it + len\<rparr>)
                      (myhdr_of len type flags sq pid)) sock' =
        (if flags AND NLMSG_F_MULTI = 0 then (Ends StopIteration, Recv_Finished, sock')
         else Recv_inner p (it\<lparr>offset := offset it + len\<rparr>) sock'))
   \<and> (struct_pack p nlmsghdr_fmt [len1, t1, f1, sq1, pid1] = Inr hdr1
      \<and> struct_pack p nlmsghdr_fmt [len2, t2, f2, sq2, pid2] = Inr hdr2
      \<and> struct_pack p nlmsghdr_fmt [len3, NLMSG_DONE, f3, sq3, pid3] = Inr hdr3
      \<and> len1 = int (length hdr1) + int (length pl1)
      \<and> len2 = int (length hdr2) + int (length pl2)
      \<and> t1 \<noteq> NLMSG_DONE \<and> t2 \<noteq> NLMSG_DONE
      \<and> f1 AND NLMSG_F_MULTI \<noteq> 0 \<and> f2 AND NLMSG_F_MULTI \<noteq> 0
      \<and> d = hdr1 @ pl1 @ hdr2 @ pl2 @ hdr3 @ rest \<and> length d \<le> 4096 \<longrightarrow>
    Recv_list (Suc (Suc (Suc n))) p Recv_Start (d # sock) =
      ([(t1, \<lparr>data = d, offset = int (length hdr1), length_it = len1\<rparr>),
        (t2, \<lparr>data = d, offset = len1 + int (length hdr2), length_it = len1 + len2\<rparr>)],
       Some StopIteration, sock))
   \<and> (struct_pack p nlmsghdr_fmt [len1, t1, f1, sq1, pid1] = Inr hdr1
      \<and> len1 = int (length hdr1) + int (length pl1)
      \<and> t1 \<noteq> NLMSG_DONE \<and> f1 AND NLMSG_F_MULTI = 0
      \<and> d = hdr1 @ pl1 @ rest \<and> length d \<le> 4096 \<longrightarrow>
    Recv_list (Suc (Suc n)) p Recv_Start (d # sock) =
      ([(t1, \<lparr>data = d, offset = int (length hdr1), length_it = len1\<rparr>)],
       Some StopIteration, sock))"
proof (intro conjI impI)
  assume a: "unpack_from p nlmsghdr_fmt (data it) (offset it) = Inr [len, type, flags, sq, pid]
      \<and> int (struct_size p nlmsghdr_fmt) \<le> Remaining it \<and> type = NLMSG_DONE"
  then have ne: "\<not> AtEnd it"
    using nlmsghdr_size_pos [of p] by (simp add: AtEnd_def)
  from a have "Recv_frame p it = (Ends StopIteration, Recv_Finished)"
    by (intro Recv_frame_done) auto
  then show "Recv_inner p it sock = (Ends StopIteration, Recv_Finished, sock)"
    by (simp add: Recv_inner_not_at_end [OF ne] del: Recv_inner.simps)
next
  assume a: "unpack_from p nlmsghdr_fmt (data it) (offset it) = Inr [len, type, flags, sq, pid]
      \<and> int (struct_size p nlmsghdr_fmt) \<le> Remaining it \<and> type \<noteq> NLMSG_DONE
      \<and> len \<le> Remaining it \<and> length_it it \<le> int (length (data it))"
  then have ne: "\<not> AtEnd it"
    using nlmsghdr_size_pos [of p] by (simp add: AtEnd_def)
  from a have "Recv_frame p it =
      (Yield (type, \<lparr>data = data it, offset = offset it + int (struct_size p nlmsghdr_fmt),
                     length_it = offset it + len\<rparr>),
       Recv_Yielded (it\<lparr>offset := offset it + len\<rparr>) (myhdr_of len type flags sq pid))"
    by (intro Recv_frame_yield) auto
  then show "Recv_inner p it sock =
      (Yield (type, \<lparr>data = data it, offset = offset it + int (struct_size p nlmsghdr_fmt),
                     length_it = offset it + len\<rparr>),
       Recv_Yielded (it\<lparr>offset := offset it + len\<rparr>) (myhdr_of len type flags sq pid), sock)"
    by (simp add: Recv_inner_not_at_end [OF ne] del: Recv_inner.simps)
next
  show "Recv_next p (Recv_Yielded (it\<lparr>offset := offset it + len\<rparr>)
                      (myhdr_of len type flags sq pid)) sock' =
        (if flags AND NLMSG_F_MULTI = 0 then (Ends StopIteration, Recv_Finished, sock')
         else Recv_inner p (it\<lparr>offset := offset it + len\<rparr>) sock')"
    by (rule Recv_next_resume)
next
  assume "struct_pack p nlmsghdr_fmt [len1, t1, f1, sq1, pid1] = Inr hdr1
      \<and> struct_pack p nlmsghdr_fmt [len2, t2, f2, sq2, pid2] = Inr hdr2
      \<and> struct_pack p nlmsghdr_fmt [len3, NLMSG_DONE, f3, sq3, pid3] = Inr hdr3
      \<and> len1 = int (length hdr1) + int (length pl1)
      \<and> len2 = int (length hdr2) + int (length pl2)
      \<and> t1 \<noteq> NLMSG_DONE \<and> t2 \<noteq> NLMSG_DONE
      \<and> f1 AND NLMSG_F_MULTI \<noteq> 0 \<and> f2 AND NLMSG_F_MULTI \<noteq> 0
      \<and> d = hdr1 @ pl1 @ hdr2 @ pl2 @ hdr3 @ rest \<and> length d \<le> 4096"
  then show "Recv_list (Suc (Suc (Suc n))) p Recv_Start (d # sock) =
      ([(t1, \<lparr>data = d, offset = int (length hdr1), length_it = len1\<rparr>),
        (t2, \<lparr>data = d, offset = len1 + int (length hdr2), length_it = len1 + len2\<rparr>)],
       Some StopIteration, sock)"
    by (intro Recv_two_then_done [where ?len3.0 = len3 and ?f3.0 = f3 and ?sq3.0 = sq3
          and ?pid3.0 = pid3 and ?hdr3.0 = hdr3 and rest = rest and ?sq1.0 = sq1 and ?pid1.0 = pid1
          and ?sq2.0 = sq2 and ?pid2.0 = pid2 and ?f1.0 = f1 and ?f2.0 = f2
          and ?pl1.0 = pl1 and ?pl2.0 = pl2]) blast+
next
  assume "struct_pack p nlmsghdr_fmt [len1, t1, f1, sq1, pid1] = Inr hdr1
      \<and> len1 = int (length hdr1) + int (length pl1)
      \<and> t1 \<noteq> NLMSG_DONE \<and> f1 AND NLMSG_F_MULTI = 0
      \<and> d = hdr1 @ pl1 @ rest \<and> length d \<le> 4096"
  then show "Recv_list (Suc (Suc n)) p Recv_Start (d # sock) =
      ([(t1, \<lparr>data = d, offset = int (length hdr1), length_it = len1\<rparr>)],
       Some StopIteration, sock)"
    by (intro Recv_single [where ?sq1.0 = sq1 and ?pid1.0 = pid1 and ?f1.0 = f1
          and ?pl1.0 = pl1 and rest = rest]) blast+
qed


theorem Recv_framing_witness:
  "Recv_inner host32 (cursor nlmsg_done_hdr) [dgram_single] =
     (Ends StopIteration, Recv_Finished, [dgram_single])
   \<and> Recv_inner host32 (cursor dgram_single) [] =
       (Yield (16, \<lparr>data = dgram_single, offset = 16, length_it = 20\<rparr>),
        Recv_Yielded \<lparr>data = dgram_single, offset = 20, length_it = 36\<rparr> (myhdr_of 20 16 0 1 0),
        [])
   \<and> Recv_next host32
        (Recv_Yielded \<lparr>data = dgram_single, offset = 20, length_it = 36\<rparr> (myhdr_of 20 16 0 1 0))
        [dgram_two_done] =
       (Ends StopIteration, Recv_Finished, [dgram_two_done])
   \<and> Recv_list 3 host32 Recv_Start [dgram_two_done] =
       ([(16, \<lparr>data = dgram_two_done, offset = 16, length_it = 20\<rparr>),
         (16, \<lparr>data = dgram_two_done, offset = 36, length_it = 40\<rparr>)],
        Some StopIteration, [])
   \<and> Recv_list 2 host32 Recv_Start [dgram_single, dgram_two_done] =
       ([(16, \<lparr>data = dgram_single, offset = 16, length_it = 20\<rparr>)],
        Some StopIteration, [dgram_two_done])"
proof -
  have a: "unpack_from host32 nlmsghdr_fmt (data (cursor nlmsg_done_hdr))
             (offset (cursor nlmsg_done_hdr)) = Inr [16, 3, 2, 1, 0]
           \<and> int (struct_size host32 nlmsghdr_fmt) \<le> Remaining (cursor nlmsg_done_hdr)
           \<and> 3 = NLMSG_DONE"
    by code_simp
  have b: "unpack_from host32 nlmsghdr_fmt (data (cursor dgram_single))
             (offset (cursor dgram_single)) = Inr [20, 16, 0, 1, 0]
           \<and> int (struct_size host32 nlmsghdr_fmt) \<le> Remaining (cursor dgram_single)
           \<and> 16 \<noteq> NLMSG_DONE
           \<and> 20 \<le> Remaining (cursor dgram_single)
           \<and> length_it (cursor dgram_single) \<le> int (length (data (cursor dgram_single)))"
    by code_simp
  have c: "struct_pack host32 nlmsghdr_fmt [20, 16, 2, 1, 0] = Inr nlmsg_multi_hdr
           \<and> struct_pack host32 nlmsghdr_fmt [20, 16, 2, 1, 0] = Inr nlmsg_multi_hdr
           \<and> struct_pack host32 nlmsghdr_fmt [16, NLMSG_DONE, 2, 1, 0] = Inr nlmsg_done_hdr
           \<and> 20 = int (length nlmsg_multi_hdr) + int (length genl_payload)
           \<and> 20 = int (length nlmsg_multi_hdr) + int (length genl_payload)
           \<and> 16 \<noteq> NLMSG_DONE \<and> 16 \<noteq> NLMSG_DONE
           \<and> 2 AND NLMSG_F_MULTI \<noteq> 0 \<and> 2 AND NLMSG_F_MULTI \<noteq> 0
           \<and> dgram_two_done =
               nlmsg_multi_hdr @ genl_payload @ nlmsg_multi_hdr @ genl_payload @ nlmsg_done_hdr @ []
           \<and> length dgram_two_done \<le> 4096"
    by code_simp
  have d: "struct_pack host32 nlmsghdr_fmt [20, 16, 0, 1, 0] = Inr nlmsg_single_hdr
           \<and> 20 = int (length nlmsg_single_hdr) + int (length genl_payload)
           \<and> 16 \<noteq> NLMSG_DONE \<and> 0 AND NLMSG_F_MULTI = 0
           \<and> dgram_single = nlmsg_single_hdr @ genl_payload @ nlmsg_done_hdr
           \<and> length dgram_single \<le> 4096"
    by code_simp
  note T = Recv_framing
  have sz: "int (struct_size host32 nlmsghdr_fmt) = 16" "offset (cursor dgram_single) = 0"
    "data (cursor dgram_single) = dgram_single" "length nlmsg_multi_hdr = 16"
    "length nlmsg_single_hdr = 16" "length dgram_single = 36"
    "0 AND NLMSG_F_MULTI = 0"
    by code_simp+
  from T [THEN conjunct1, rule_format, OF a]
  have 1: "Recv_inner host32 (cursor nlmsg_done_hdr) [dgram_single] =
     (Ends StopIteration, Recv_Finished, [dgram_single])" .
  from T [THEN conjunct2, THEN conjunct1, rule_format, OF b, of "[]" "[dgram_two_done]"]
  have 2: "Recv_inner host32 (cursor dgram_single) [] =
       (Yield (16, \<lparr>data = dgram_single, offset = 16, length_it = 20\<rparr>),
        Recv_Yielded \<lparr>data = dgram_single, offset = 20, length_it = 36\<rparr> (myhdr_of 20 16 0 1 0),
        [])
     \<and> Recv_next host32
        (Recv_Yielded \<lparr>data = dgram_single, offset = 20, length_it = 36\<rparr> (myhdr_of 20 16 0 1 0))
        [dgram_two_done] =
       (Ends StopIteration, Recv_Finished, [dgram_two_done])"
    by (simp add: sz cursor_def del: Recv_inner.simps)
  from T [THEN conjunct2, THEN conjunct2, THEN conjunct1, rule_format, OF c, of 0 "[]"]
  have 3: "Recv_list 3 host32 Recv_Start [dgram_two_done] =
       ([(16, \<lparr>data = dgram_two_done, offset = 16, length_it = 20\<rparr>),
         (16, \<lparr>data = dgram_two_done, offset = 36, length_it = 40\<rparr>)],
        Some StopIteration, [])"
    by (simp add: sz numeral_3_eq_3 del: Recv_list.simps)
  from T [THEN conjunct2, THEN conjunct2, THEN conjunct2, rule_format, OF d, of 0 "[dgram_two_done]"]
  have 4: "Recv_list 2 host32 Recv_Start [dgram_single, dgram_two_done] =
       ([(16, \<lparr>data = dgram_single, offset = 16, length_it = 20\<rparr>)],
        Some StopIteration, [dgram_two_done])"
    by (simp add: sz numeral_2_eq_2 del: Recv_list.simps)
  from 1 2 3 4 show ?thesis
    by simp
qed

section \<open>The family registry\<close>

lemma map_of_dict_of_aux:
  "map_of (foldl (\<lambda>d kv. dict_update (fst kv) (snd kv) d) d0 kvs) = map_of (rev kvs @ d0)"
proof (induction kvs arbitrary: d0)
  case Nil
  then show ?case by simp
next
  case (Cons kv kvs)
  show ?case
    by (cases kv) (simp add: Cons.IH map_of_append map_of_dict_update)
qed

lemma map_of_dict_of: "map_of (dict_of kvs) = map_of (rev kvs)"
  by (simp add: dict_of_def map_of_dict_of_aux)

lemma dom_index_by: "dom (map_of (index_by key ds)) = key ` set ds"
proof -
  have "map fst (zip (map key ds) [0..<length ds]) = map key ds"
    by simp
  then have "fst ` set (zip (map key ds) [0..<length ds]) = key ` set ds"
    by (metis list.set_map)
  then show ?thesis
    by (simp add: index_by_def map_of_dict_of dom_map_of_conv_image_fst)
qed

lemma index_by_Some:
  assumes "map_of (index_by key ds) k = Some i"
  shows "i < length ds \<and> key (ds ! i) = k"
proof -
  from assms have "(k, i) \<in> set (rev (zip (map key ds) [0..<length ds]))"
    unfolding index_by_def map_of_dict_of by (rule map_of_SomeD)
  then have "(k, i) \<in> set (zip (map key ds) [0..<length ds])"
    by simp
  then show ?thesis
    by (auto simp: set_zip)
qed

lemma index_by_distinct:
  assumes "distinct (map key ds)" "i < length ds"
  shows "map_of (index_by key ds) (key (ds ! i)) = Some i"
proof -
  let ?z = "zip (map key ds) [0..<length ds]"
  have "distinct (map fst (rev ?z))"
    using assms(1) by (simp add: rev_map [symmetric])
  moreover have "(key (ds ! i), i) \<in> set (rev ?z)"
    using assms(2) by (force simp: set_zip)
  ultimately show ?thesis
    unfolding index_by_def map_of_dict_of by (rule map_of_is_SomeI)
qed

lemma rstrip_no_trailing: "rstrip c s = [] \<or> last (rstrip c s) \<noteq> c"
proof (cases "dropWhile (\<lambda>x. x = c) (rev s)")
  case Nil
  then show ?thesis by (simp add: rstrip_def)
next
  case (Cons x xs)
  then have "x \<noteq> c"
    using hd_dropWhile [of "\<lambda>x. x = c" "rev s"] by auto
  with Cons show ?thesis
    by (simp add: rstrip_def)
qed


lemma bootstrap_msg_Inr:
  assumes "bootstrap_msg g msg = Inr g'"
  shows "\<exists>nm i. msg_name msg = Some nm \<and> attr_int (snd msg) ''family_id'' = Inr i
           \<and> newfamily_command g = Inr (fst msg)
           \<and> (case map_of (msgtypes_by_name g) nm of
                 Some k \<Rightarrow> g' = g \<and> i = desc_id (msgtypes g ! k)
               | None \<Rightarrow> g' = g\<lparr>msgtypes := msgtypes g @ [new_family i nm]\<rparr>)"
  using assms
  by (auto simp: bootstrap_msg_def msg_name_def new_family_def Let_def
      split: sum.splits pyval.splits option.splits if_splits)

lemma bootstrap_msg_indices:
  assumes "bootstrap_msg g msg = Inr g'"
  shows "msgtypes_by_id g' = msgtypes_by_id g \<and> msgtypes_by_name g' = msgtypes_by_name g
         \<and> (\<exists>new. msgtypes g' = msgtypes g @ new)"
  using bootstrap_msg_Inr [OF assms] by (auto split: option.splits)

lemma bootstrap_msg_known:
  assumes "msg_name msg = Some nm" "map_of (msgtypes_by_name g) nm \<noteq> None"
  shows "bootstrap_msg g msg = Inr g \<or> (\<exists>e. bootstrap_msg g msg = Inl e)"
proof (cases "bootstrap_msg g msg")
  case (Inl e)
  then show ?thesis by simp
next
  case (Inr g')
  from bootstrap_msg_Inr [OF Inr] assms have "g' = g"
    by (auto split: option.splits)
  with Inr show ?thesis by simp
qed

lemma bootstrap_msg_name:
  assumes "msg_name msg = None"
  shows "\<exists>e. bootstrap_msg g msg = Inl e"
proof (cases "bootstrap_msg g msg")
  case (Inl e)
  then show ?thesis by simp
next
  case (Inr g')
  from bootstrap_msg_Inr [OF Inr] assms show ?thesis by auto
qed

lemma bootstrap_loop_first:
  assumes "bootstrap_loop g msgs = (g', None)"
  shows "msgtypes_by_id g' = msgtypes_by_id g \<and> msgtypes_by_name g' = msgtypes_by_name g
         \<and> (\<exists>new. msgtypes g' = msgtypes g @ new)
         \<and> (\<forall>msg\<in>set msgs. \<exists>nm. msg_name msg = Some nm
               \<and> (nm \<in> dom (map_of (msgtypes_by_name g)) \<or> nm \<in> desc_name ` set (msgtypes g')))"
  using assms
proof (induction msgs arbitrary: g)
  case Nil
  then show ?case by simp
next
  case (Cons msg msgs)
  from Cons.prems obtain g1 where m: "bootstrap_msg g msg = Inr g1"
    and l: "bootstrap_loop g1 msgs = (g', None)"
    by (auto split: sum.splits)
  note I = bootstrap_msg_indices [OF m]
  note H = Cons.IH [OF l]
  from bootstrap_msg_Inr [OF m] obtain nm i where nm: "msg_name msg = Some nm"
    and c: "case map_of (msgtypes_by_name g) nm of
                 Some k \<Rightarrow> g1 = g \<and> i = desc_id (msgtypes g ! k)
               | None \<Rightarrow> g1 = g\<lparr>msgtypes := msgtypes g @ [new_family i nm]\<rparr>"
    by auto
  from H obtain new where new: "msgtypes g' = msgtypes g1 @ new"
    by auto
  have first: "nm \<in> dom (map_of (msgtypes_by_name g)) \<or> nm \<in> desc_name ` set (msgtypes g')"
  proof (cases "map_of (msgtypes_by_name g) nm")
    case None
    with c have "msgtypes g1 = msgtypes g @ [new_family i nm]" by simp
    with new show ?thesis
      by (auto simp: new_family_def image_iff)
  next
    case (Some k)
    then show ?thesis by auto
  qed
  from I H nm first show ?case
    by auto
qed

lemma UpdateMsgTypes_simps [simp]:
  "msgtypes (UpdateMsgTypes g) = msgtypes g"
  "msgtypes_by_id (UpdateMsgTypes g) = index_by desc_id (msgtypes g)"
  "msgtypes_by_name (UpdateMsgTypes g) = index_by desc_name (msgtypes g)"
  by (simp_all add: UpdateMsgTypes_def)

lemma bootstrap_loop_known:
  assumes "\<forall>msg\<in>set msgs. \<forall>nm. msg_name msg = Some nm \<longrightarrow> map_of (msgtypes_by_name g) nm \<noteq> None"
  shows "fst (bootstrap_loop g msgs) = g"
  using assms
proof (induction msgs)
  case Nil
  then show ?case by simp
next
  case (Cons msg msgs)
  show ?case
  proof (cases "msg_name msg")
    case None
    from bootstrap_msg_name [OF None, of g] show ?thesis by auto
  next
    case (Some nm)
    with Cons.prems have "map_of (msgtypes_by_name g) nm \<noteq> None" by simp
    from bootstrap_msg_known [OF Some this] Cons show ?thesis
      by auto
  qed
qed

lemma bootstrap_first:
  assumes "bootstrap g msgs = (g1, None)"
  shows "msgtypes_by_id g1 = index_by desc_id (msgtypes g1)
       \<and> msgtypes_by_name g1 = index_by desc_name (msgtypes g1)
       \<and> (\<exists>new. msgtypes g1 = msgtypes g @ new)
       \<and> (\<forall>msg\<in>set msgs. \<exists>nm. msg_name msg = Some nm \<and> nm \<in> desc_name ` set (msgtypes g1))"
proof -
  from assms obtain g' where l: "bootstrap_loop (UpdateMsgTypes g) msgs = (g', None)"
    and g1: "g1 = UpdateMsgTypes g'"
    by (auto simp: bootstrap_def split: prod.splits option.splits)
  from bootstrap_loop_first [OF l] obtain new where new: "msgtypes g' = msgtypes g @ new"
    and n: "\<forall>msg\<in>set msgs. \<exists>nm. msg_name msg = Some nm
               \<and> (nm \<in> dom (map_of (index_by desc_name (msgtypes g)))
                   \<or> nm \<in> desc_name ` set (msgtypes g'))"
    by auto
  have "\<forall>msg\<in>set msgs. \<exists>nm. msg_name msg = Some nm \<and> nm \<in> desc_name ` set (msgtypes g')"
    using n new unfolding dom_index_by by fastforce
  with new g1 show ?thesis
    by simp
qed

lemma UpdateMsgTypes_in_sync:
  assumes "msgtypes_by_id g = index_by desc_id (msgtypes g)"
    and "msgtypes_by_name g = index_by desc_name (msgtypes g)"
  shows "UpdateMsgTypes g = g"
  using assms by (simp add: UpdateMsgTypes_def)

lemma bootstrap_again_state:
  assumes "bootstrap g msgs = (g1, None)"
  shows "fst (bootstrap g1 msgs) = g1"
proof -
  note F = bootstrap_first [OF assms]
  have u: "UpdateMsgTypes g1 = g1"
    using F by (intro UpdateMsgTypes_in_sync) auto
  have "\<forall>msg\<in>set msgs. \<forall>nm. msg_name msg = Some nm \<longrightarrow> map_of (msgtypes_by_name g1) nm \<noteq> None"
  proof (intro ballI allI impI)
    fix msg nm
    assume "msg \<in> set msgs" "msg_name msg = Some nm"
    with F have "nm \<in> desc_name ` set (msgtypes g1)" by fastforce
    then have "nm \<in> dom (map_of (index_by desc_name (msgtypes g1)))"
      by (simp only: dom_index_by)
    with F show "map_of (msgtypes_by_name g1) nm \<noteq> None"
      by auto
  qed
  then have l: "fst (bootstrap_loop g1 msgs) = g1"
    by (rule bootstrap_loop_known)
  show ?thesis
    using l u by (auto simp: bootstrap_def split: prod.splits option.splits)
qed

lemma newfamily_command_prefix:
  assumes "msgtypes_by_name g = index_by desc_name ds0" "msgtypes g = ds0 @ new0"
  shows "newfamily_command g = newfamily_command (g\<lparr>msgtypes := ds0\<rparr>)"
proof (cases "map_of (index_by desc_name ds0) ''nlctrl''")
  case None
  with assms show ?thesis
    by (simp add: newfamily_command_def dict_get_def)
next
  case (Some k)
  from index_by_Some [OF Some] have "k < length ds0" by simp
  with assms Some show ?thesis
    by (simp add: newfamily_command_def dict_get_def nth_append)
qed

lemma bootstrap_loop_trace:
  assumes "bootstrap_loop g msgs = (g', None)"
    and "msgtypes_by_name g = index_by desc_name ds0"
    and "msgtypes g = ds0 @ new0"
  shows "\<exists>new. msgtypes g' = msgtypes g @ new
     \<and> (\<forall>msg\<in>set msgs. \<exists>nm i. msg_name msg = Some nm \<and> msg_id msg = Inr i
           \<and> newfamily_command (g\<lparr>msgtypes := ds0\<rparr>) = Inr (fst msg)
           \<and> (\<forall>k. map_of (index_by desc_name ds0) nm = Some k \<longrightarrow> i = desc_id (ds0 ! k)))
     \<and> (\<forall>d\<in>set new. \<exists>msg\<in>set msgs. msg_name msg = Some (desc_name d)
           \<and> msg_id msg = Inr (desc_id d)
           \<and> map_of (index_by desc_name ds0) (desc_name d) = None)"
  using assms
proof (induction msgs arbitrary: g new0)
  case Nil
  then show ?case by simp
next
  case (Cons msg msgs)
  from Cons.prems(1) obtain g1 where m: "bootstrap_msg g msg = Inr g1"
    and l: "bootstrap_loop g1 msgs = (g', None)"
    by (auto split: sum.splits)
  from bootstrap_msg_Inr [OF m] obtain nm i where nm: "msg_name msg = Some nm"
    and i: "msg_id msg = Inr i"
    and nf: "newfamily_command g = Inr (fst msg)"
    and c: "case map_of (msgtypes_by_name g) nm of
                 Some k \<Rightarrow> g1 = g \<and> i = desc_id (msgtypes g ! k)
               | None \<Rightarrow> g1 = g\<lparr>msgtypes := msgtypes g @ [new_family i nm]\<rparr>"
    by (auto simp: msg_id_def)
  have nf0: "newfamily_command (g\<lparr>msgtypes := ds0\<rparr>) = Inr (fst msg)"
    using newfamily_command_prefix [OF Cons.prems(2,3)] nf by simp
  obtain add where add: "msgtypes g1 = msgtypes g @ add"
    and n1: "msgtypes_by_name g1 = msgtypes_by_name g"
    and add_cases: "(add = [] \<and> map_of (index_by desc_name ds0) nm \<noteq> None)
                    \<or> (add = [new_family i nm] \<and> map_of (index_by desc_name ds0) nm = None)"
    and g1: "g1\<lparr>msgtypes := ds0\<rparr> = g\<lparr>msgtypes := ds0\<rparr>"
    using c Cons.prems(2) by (cases "map_of (msgtypes_by_name g) nm") auto
  have known: "\<forall>k. map_of (index_by desc_name ds0) nm = Some k \<longrightarrow> i = desc_id (ds0 ! k)"
  proof (intro allI impI)
    fix k
    assume k: "map_of (index_by desc_name ds0) nm = Some k"
    from index_by_Some [OF k] have "k < length ds0" by simp
    with c k Cons.prems(2,3) show "i = desc_id (ds0 ! k)"
      by (simp add: nth_append)
  qed
  have s1: "msgtypes_by_name g1 = index_by desc_name ds0"
    using n1 Cons.prems(2) by simp
  have s2: "msgtypes g1 = ds0 @ (new0 @ add)"
    using add Cons.prems(3) by simp
  from Cons.IH [OF l s1 s2] obtain new where new: "msgtypes g' = msgtypes g1 @ new"
    and A: "\<forall>msg\<in>set msgs. \<exists>nm i. msg_name msg = Some nm \<and> msg_id msg = Inr i
           \<and> newfamily_command (g1\<lparr>msgtypes := ds0\<rparr>) = Inr (fst msg)
           \<and> (\<forall>k. map_of (index_by desc_name ds0) nm = Some k \<longrightarrow> i = desc_id (ds0 ! k))"
    and B: "\<forall>d\<in>set new. \<exists>msg\<in>set msgs. msg_name msg = Some (desc_name d)
           \<and> msg_id msg = Inr (desc_id d)
           \<and> map_of (index_by desc_name ds0) (desc_name d) = None"
    by blast
  have 1: "msgtypes g' = msgtypes g @ (add @ new)"
    using new add by simp
  have 2: "\<forall>m\<in>set (msg # msgs). \<exists>nm i. msg_name m = Some nm \<and> msg_id m = Inr i
           \<and> newfamily_command (g\<lparr>msgtypes := ds0\<rparr>) = Inr (fst m)
           \<and> (\<forall>k. map_of (index_by desc_name ds0) nm = Some k \<longrightarrow> i = desc_id (ds0 ! k))"
    using A nm i nf0 known unfolding g1 by auto
  have 3: "\<forall>d\<in>set (add @ new). \<exists>m\<in>set (msg # msgs). msg_name m = Some (desc_name d)
           \<and> msg_id m = Inr (desc_id d)
           \<and> map_of (index_by desc_name ds0) (desc_name d) = None"
  proof
    fix d
    assume "d \<in> set (add @ new)"
    then consider "d \<in> set add" | "d \<in> set new" by auto
    then show "\<exists>m\<in>set (msg # msgs). msg_name m = Some (desc_name d)
           \<and> msg_id m = Inr (desc_id d)
           \<and> map_of (index_by desc_name ds0) (desc_name d) = None"
    proof cases
      case 1
      with add_cases have "d = new_family i nm" "map_of (index_by desc_name ds0) nm = None"
        by auto
      with nm i show ?thesis
        by (auto simp: new_family_def)
    next
      case 2
      with B show ?thesis by auto
    qed
  qed
  from 1 2 3 show ?case by blast
qed


lemma index_append_cases:
  assumes "map_of (index_by key (ds0 @ new)) x = Some k"
  shows "(k < length ds0 \<and> key (ds0 ! k) = x \<and> (ds0 @ new) ! k = ds0 ! k)
         \<or> (\<exists>d\<in>set new. key d = x \<and> (ds0 @ new) ! k = d)"
proof -
  from index_by_Some [OF assms] have k: "k < length (ds0 @ new)"
    and x: "key ((ds0 @ new) ! k) = x"
    by simp_all
  show ?thesis
  proof (cases "k < length ds0")
    case True
    with x show ?thesis by (simp add: nth_append)
  next
    case False
    with k have "(ds0 @ new) ! k = new ! (k - length ds0)" "k - length ds0 < length new"
      by (simp_all add: nth_append)
    with x show ?thesis by (metis nth_mem)
  qed
qed

lemma bootstrap_loop_all_known:
  assumes "\<forall>msg\<in>set msgs. bootstrap_msg g msg = Inr g"
  shows "bootstrap_loop g msgs = (g, None)"
  using assms by (induction msgs) simp_all

lemma bootstrap_second_succeeds:
  assumes b: "bootstrap g msgs = (g1, None)"
    and A: "distinct (map desc_name (msgtypes g))"
    and B: "consistent_ids msgs"
  shows "bootstrap g1 msgs = (g1, None)"
proof -
  let ?ds0 = "msgtypes g"
  let ?u = "UpdateMsgTypes g"
  from b obtain g' where l: "bootstrap_loop ?u msgs = (g', None)"
    and g1: "g1 = UpdateMsgTypes g'"
    by (auto simp: bootstrap_def split: prod.splits option.splits)
  have u0: "?u\<lparr>msgtypes := ?ds0\<rparr> = ?u"
    by (simp add: UpdateMsgTypes_def)
  from bootstrap_loop_trace [OF l, of ?ds0 "[]"] obtain new where
    new: "msgtypes g' = ?ds0 @ new"
    and T: "\<forall>msg\<in>set msgs. \<exists>nm i. msg_name msg = Some nm \<and> msg_id msg = Inr i
           \<and> newfamily_command ?u = Inr (fst msg)
           \<and> (\<forall>k. map_of (index_by desc_name ?ds0) nm = Some k \<longrightarrow> i = desc_id (?ds0 ! k))"
    and N: "\<forall>d\<in>set new. \<exists>msg\<in>set msgs. msg_name msg = Some (desc_name d)
           \<and> msg_id msg = Inr (desc_id d)
           \<and> map_of (index_by desc_name ?ds0) (desc_name d) = None"
    unfolding u0 by auto
  have ms: "msgtypes g1 = ?ds0 @ new"
    and bn: "msgtypes_by_name g1 = index_by desc_name (?ds0 @ new)"
    and bi: "msgtypes_by_id g1 = index_by desc_id (?ds0 @ new)"
    using g1 new by simp_all
  have step: "bootstrap_msg g1 msg = Inr g1" if msg: "msg \<in> set msgs" for msg
  proof -
    from T msg obtain nm i where nm: "msg_name msg = Some nm" and i: "msg_id msg = Inr i"
      and nf: "newfamily_command ?u = Inr (fst msg)"
      and known: "\<forall>k. map_of (index_by desc_name ?ds0) nm = Some k \<longrightarrow> i = desc_id (?ds0 ! k)"
      by blast
    \<comment> \<open>the control family is found at the same descriptor as in the first run\<close>
    from nf obtain k0 where k0: "map_of (index_by desc_name ?ds0) ''nlctrl'' = Some k0"
      by (auto simp: newfamily_command_def dict_get_def split: option.splits)
    from k0 have "''nlctrl'' \<in> dom (map_of (index_by desc_name ?ds0))"
      by (rule domI)
    then have "''nlctrl'' \<in> dom (map_of (index_by desc_name (?ds0 @ new)))"
      unfolding dom_index_by by auto
    then obtain k1 where k1: "map_of (index_by desc_name (?ds0 @ new)) ''nlctrl'' = Some k1"
      by auto
    from index_append_cases [OF k1] N k0
    have "k1 < length ?ds0" and "desc_name (?ds0 ! k1) = ''nlctrl''"
      and e1: "(?ds0 @ new) ! k1 = ?ds0 ! k1"
      by auto
    with index_by_distinct [OF A, of k1] k0 have "k1 = k0" by simp
    with e1 nf k0 k1 have nf1: "newfamily_command g1 = Inr (fst msg)"
      by (simp add: newfamily_command_def dict_get_def ms bn)
    \<comment> \<open>the name is known, and the descriptor found under it carries the id of the message\<close>
    from bootstrap_first [OF b] msg nm have "nm \<in> desc_name ` set (msgtypes g1)"
      by fastforce
    then have "nm \<in> dom (map_of (index_by desc_name (?ds0 @ new)))"
      unfolding dom_index_by ms .
    then obtain k where k: "map_of (index_by desc_name (?ds0 @ new)) nm = Some k"
      by auto
    have id: "desc_id ((?ds0 @ new) ! k) = i"
      using index_append_cases [OF k]
    proof
      assume c: "k < length ?ds0 \<and> desc_name (?ds0 ! k) = nm \<and> (?ds0 @ new) ! k = ?ds0 ! k"
      with index_by_distinct [OF A, of k] have "map_of (index_by desc_name ?ds0) nm = Some k"
        by auto
      with known c show ?thesis by simp
    next
      assume "\<exists>d\<in>set new. desc_name d = nm \<and> (?ds0 @ new) ! k = d"
      then obtain d where d: "d \<in> set new" "desc_name d = nm" "(?ds0 @ new) ! k = d"
        by auto
      with N obtain m' where "m' \<in> set msgs" "msg_name m' = Some nm"
        "msg_id m' = Inr (desc_id d)"
        by auto
      with B msg nm i have "Inr i = (Inr (desc_id d) :: error + int)"
        unfolding consistent_ids_def by metis
      with d show ?thesis by simp
    qed
    from nm obtain s where s: "dict_get (snd msg) ''family_name'' = Inr (PStr s)"
      and r: "rstrip NUL s = nm"
      by (auto simp: msg_name_def split: sum.splits pyval.splits)
    show ?thesis
      using nf1 s r k id i
      by (simp add: bootstrap_msg_def Let_def msg_id_def bn ms)
  qed
  have u: "UpdateMsgTypes g1 = g1"
    using ms bn bi by (simp add: UpdateMsgTypes_def)
  have "bootstrap_loop g1 msgs = (g1, None)"
    using step by (intro bootstrap_loop_all_known) simp
  then show ?thesis
    by (simp add: bootstrap_def u)
qed

text \<open>
  Claim C8. After a bootstrap that completed, running the bootstrap again over the same
  responses leaves the registry as it was: the descriptor list, the index by id and the
  index by name are identical, so nothing is appended. When the registry started with
  distinct names and no name comes with two different ids in the responses, the second run
  also completes: every response passes the id-match assertion.
\<close>

theorem bootstrap_idempotent:
  assumes "bootstrap g msgs = (g1, None)"
  shows "fst (bootstrap g1 msgs) = g1
       \<and> (distinct (map desc_name (msgtypes g)) \<and> consistent_ids msgs \<longrightarrow>
            bootstrap g1 msgs = (g1, None))"
  using bootstrap_again_state [OF assms] bootstrap_second_succeeds [OF assms] by blast

theorem bootstrap_idempotent_witness:
  "GenericNetlink_init family_dump = (registry1, None)
   \<and> fst (bootstrap registry1 family_dump) = registry1
   \<and> bootstrap registry1 family_dump = (registry1, None)"
proof -
  have 1: "bootstrap registry0 family_dump = (registry1, None)"
    by code_simp
  have 2: "distinct (map desc_name (msgtypes registry0)) \<and> consistent_ids family_dump"
    by code_simp
  from bootstrap_idempotent [OF 1] 1 2 show ?thesis
    by (simp add: GenericNetlink_init_def registry0_def)
qed

lemma index_by_cong:
  "map key ds' = map key ds \<Longrightarrow> index_by key ds' = index_by key ds"
  using map_eq_imp_length_eq [of key ds' key ds] by (simp add: index_by_def)

lemma map_key_update:
  assumes "key d = key (ds ! k)"
  shows "map key (ds[k := d]) = map key ds"
proof (cases "k < length ds")
  case True
  then show ?thesis
    using assms by (simp add: map_update list_update_same_conv)
next
  case False
  then show ?thesis by (simp add: list_update_beyond)
qed

lemma RegisterMsgType_Inr:
  assumes "RegisterMsgType g nm ps cmds = Inr g'"
  shows "msgtypes_by_id g' = msgtypes_by_id g \<and> msgtypes_by_name g' = msgtypes_by_name g
       \<and> map desc_id (msgtypes g') = map desc_id (msgtypes g)
       \<and> map desc_name (msgtypes g') = map desc_name (msgtypes g)"
  using assms
  by (auto simp: RegisterMsgType_def map_key_update split: sum.splits)

lemma ran_index_by:
  assumes "distinct (map key ds)"
  shows "ran (map_of (index_by key ds)) = {..<length ds}"
proof
  show "ran (map_of (index_by key ds)) \<subseteq> {..<length ds}"
    by (auto simp: ran_def dest: index_by_Some)
next
  show "{..<length ds} \<subseteq> ran (map_of (index_by key ds))"
  proof
    fix i
    assume "i \<in> {..<length ds}"
    then have "map_of (index_by key ds) (key (ds ! i)) = Some i"
      using index_by_distinct [OF assms] by simp
    then show "i \<in> ran (map_of (index_by key ds))"
      by (rule ranI)
  qed
qed

text \<open>
  Claim C9, as stated: after every registry operation the two indices contain the same
  set of descriptors and every descriptor is reachable under its own id and its own name.
  A dump that reports a family \<open>x\<close> with the id 16 of the control family completes the
  bootstrap and leaves the index by id with the new descriptor only, while the index by
  name holds both: the control family is no longer reachable under its id.
\<close>

theorem registry_indices_differ:
  "snd (GenericNetlink_init clash_dump) = None
   \<and> msgtypes (fst (GenericNetlink_init clash_dump)) = [nlctrl, new_family 16 ''x'']
   \<and> set (map snd (msgtypes_by_id (fst (GenericNetlink_init clash_dump))))
       \<noteq> set (map snd (msgtypes_by_name (fst (GenericNetlink_init clash_dump))))
   \<and> map_of (msgtypes_by_id (fst (GenericNetlink_init clash_dump))) (desc_id nlctrl) = Some 1"
proof -
  have "GenericNetlink_init clash_dump =
     (\<lparr>msgtypes = [nlctrl, new_family 16 ''x''],
       msgtypes_by_id = [(16, 1)],
       msgtypes_by_name = [(''x'', 1), (''nlctrl'', 0)]\<rparr>, None)"
    by code_simp
  then show ?thesis
    by (simp add: nlctrl_def)
qed

text \<open>
  Claim C9, amended. After a completed bootstrap both indices are the rebuild of the
  descriptor list; the rounds of the bootstrap loop and \<open>RegisterMsgType\<close> assign neither
  index, and \<open>RegisterMsgType\<close> keeps them the rebuild of the list because it writes
  through the shared descriptor and changes neither id nor name. Every entry of an index
  leads to a descriptor of the list that carries the key. When the descriptors have
  pairwise distinct ids and pairwise distinct names, both indices hold every descriptor
  of the list, each under its own id and its own name.
\<close>

theorem registry_indices_rebuilt:
  "(bootstrap g msgs = (g1, None) \<longrightarrow> in_sync g1)
   \<and> (bootstrap_msg g msg = Inr g' \<longrightarrow>
        msgtypes_by_id g' = msgtypes_by_id g \<and> msgtypes_by_name g' = msgtypes_by_name g)
   \<and> (in_sync g \<and> RegisterMsgType g nm ps cmds = Inr g' \<longrightarrow>
        in_sync g' \<and> msgtypes_by_id g' = msgtypes_by_id g
        \<and> msgtypes_by_name g' = msgtypes_by_name g)
   \<and> (in_sync g \<longrightarrow>
        (\<forall>k i. map_of (msgtypes_by_id g) k = Some i \<longrightarrow>
                 i < length (msgtypes g) \<and> desc_id (msgtypes g ! i) = k)
        \<and> (\<forall>k i. map_of (msgtypes_by_name g) k = Some i \<longrightarrow>
                 i < length (msgtypes g) \<and> desc_name (msgtypes g ! i) = k))
   \<and> (in_sync g \<and> distinct (map desc_id (msgtypes g)) \<and> distinct (map desc_name (msgtypes g)) \<longrightarrow>
        ran (map_of (msgtypes_by_id g)) = {..<length (msgtypes g)}
        \<and> ran (map_of (msgtypes_by_name g)) = {..<length (msgtypes g)}
        \<and> (\<forall>i<length (msgtypes g).
              map_of (msgtypes_by_id g) (desc_id (msgtypes g ! i)) = Some i
              \<and> map_of (msgtypes_by_name g) (desc_name (msgtypes g ! i)) = Some i))"
proof (intro conjI impI)
  assume "bootstrap g msgs = (g1, None)"
  from bootstrap_first [OF this] show "in_sync g1"
    by (simp add: in_sync_def)
next
  assume "bootstrap_msg g msg = Inr g'"
  from bootstrap_msg_indices [OF this]
  show "msgtypes_by_id g' = msgtypes_by_id g" "msgtypes_by_name g' = msgtypes_by_name g"
    by simp_all
next
  assume a: "in_sync g \<and> RegisterMsgType g nm ps cmds = Inr g'"
  then have r: "RegisterMsgType g nm ps cmds = Inr g'" by simp
  note R = RegisterMsgType_Inr [OF r]
  from R show "msgtypes_by_id g' = msgtypes_by_id g" "msgtypes_by_name g' = msgtypes_by_name g"
    by simp_all
  from a R show "in_sync g'"
    by (simp add: in_sync_def index_by_cong [of desc_id "msgtypes g'" "msgtypes g"]
        index_by_cong [of desc_name "msgtypes g'" "msgtypes g"])
next
  assume "in_sync g"
  then show "\<forall>k i. map_of (msgtypes_by_id g) k = Some i \<longrightarrow>
                 i < length (msgtypes g) \<and> desc_id (msgtypes g ! i) = k"
    and "\<forall>k i. map_of (msgtypes_by_name g) k = Some i \<longrightarrow>
                 i < length (msgtypes g) \<and> desc_name (msgtypes g ! i) = k"
    by (auto simp: in_sync_def dest: index_by_Some)
next
  assume a: "in_sync g \<and> distinct (map desc_id (msgtypes g)) \<and> distinct (map desc_name (msgtypes g))"
  then show "ran (map_of (msgtypes_by_id g)) = {..<length (msgtypes g)}"
    and "ran (map_of (msgtypes_by_name g)) = {..<length (msgtypes g)}"
    by (simp_all add: in_sync_def ran_index_by)
  from a show "\<forall>i<length (msgtypes g).
              map_of (msgtypes_by_id g) (desc_id (msgtypes g ! i)) = Some i
              \<and> map_of (msgtypes_by_name g) (desc_name (msgtypes g ! i)) = Some i"
    by (simp add: in_sync_def index_by_distinct)
qed

theorem registry_indices_rebuilt_witness:
  "in_sync registry1
   \<and> (msgtypes_by_id registry_loop = msgtypes_by_id (UpdateMsgTypes registry0)
      \<and> msgtypes_by_name registry_loop = msgtypes_by_name (UpdateMsgTypes registry0))
   \<and> (in_sync registry2 \<and> msgtypes_by_id registry2 = msgtypes_by_id registry1
      \<and> msgtypes_by_name registry2 = msgtypes_by_name registry1)
   \<and> (map_of (msgtypes_by_id registry2) 21 = Some 1
      \<and> 1 < length (msgtypes registry2) \<and> desc_id (msgtypes registry2 ! 1) = 21)
   \<and> (map_of (msgtypes_by_name registry2) ''nlctrl'' = Some 0
      \<and> 0 < length (msgtypes registry2) \<and> desc_name (msgtypes registry2 ! 0) = ''nlctrl'')
   \<and> (ran (map_of (msgtypes_by_id registry2)) = {..<length (msgtypes registry2)}
      \<and> ran (map_of (msgtypes_by_name registry2)) = {..<length (msgtypes registry2)}
      \<and> map_of (msgtypes_by_id registry2) (desc_id (msgtypes registry2 ! 0)) = Some 0
      \<and> map_of (msgtypes_by_name registry2) (desc_name (msgtypes registry2 ! 0)) = Some 0
      \<and> map_of (msgtypes_by_id registry2) (desc_id (msgtypes registry2 ! 1)) = Some 1
      \<and> map_of (msgtypes_by_name registry2) (desc_name (msgtypes registry2 ! 1)) = Some 1)"
proof -
  note T = registry_indices_rebuilt
  have 1: "bootstrap registry0 family_dump = (registry1, None)"
    by code_simp
  have 2: "bootstrap_msg (UpdateMsgTypes registry0)
             (1, [(''family_id'', PInt 21), (''family_name'', PStr (''nl80211'' @ [NUL]))])
           = Inr registry_loop"
    by code_simp
  from T [THEN conjunct1, rule_format, OF 1] have s1: "in_sync registry1" .
  have 3: "in_sync registry1
           \<and> RegisterMsgType registry1 ''nl80211'' (Attributes nl80211_attr) nl80211_commands
               = Inr registry2"
    using s1 by code_simp
  from T [THEN conjunct2, THEN conjunct2, THEN conjunct1, rule_format, OF 3]
  have c3: "in_sync registry2 \<and> msgtypes_by_id registry2 = msgtypes_by_id registry1
      \<and> msgtypes_by_name registry2 = msgtypes_by_name registry1" .
  then have s2: "in_sync registry2" by simp
  have 5: "in_sync registry2 \<and> distinct (map desc_id (msgtypes registry2))
           \<and> distinct (map desc_name (msgtypes registry2))"
    using s2 by code_simp
  have k1: "map_of (msgtypes_by_id registry2) 21 = Some 1"
    and k2: "map_of (msgtypes_by_name registry2) ''nlctrl'' = Some 0"
    and len: "length (msgtypes registry2) = 2"
    by code_simp+
  note c4 = T [THEN conjunct2, THEN conjunct2, THEN conjunct2, THEN conjunct1, rule_format, OF s2]
  note c5 = T [THEN conjunct2, THEN conjunct2, THEN conjunct2, THEN conjunct2, rule_format, OF 5]
  from c4 k1 have d1: "1 < length (msgtypes registry2) \<and> desc_id (msgtypes registry2 ! 1) = 21"
    by blast
  from c4 k2 have d2: "0 < length (msgtypes registry2) \<and> desc_name (msgtypes registry2 ! 0) = ''nlctrl''"
    by blast
  from c5 len have d3:
    "map_of (msgtypes_by_id registry2) (desc_id (msgtypes registry2 ! 0)) = Some 0
     \<and> map_of (msgtypes_by_name registry2) (desc_name (msgtypes registry2 ! 0)) = Some 0"
    and d4: "map_of (msgtypes_by_id registry2) (desc_id (msgtypes registry2 ! 1)) = Some 1
     \<and> map_of (msgtypes_by_name registry2) (desc_name (msgtypes registry2 ! 1)) = Some 1"
    by simp_all
  from s1 T [THEN conjunct2, THEN conjunct1, rule_format, OF 2] c3 k1 k2 d1 d2 c5 d3 d4
  show ?thesis
    by (intro conjI) blast+
qed

text \<open>
  Claim C10. After a completed bootstrap, every family name of the responses is in the
  registry with its trailing NUL bytes stripped: the lookup by the stripped name, with which
  \<open>RegisterMsgType\<close> and \<open>Send\<close> start, finds a descriptor of that name, and
  \<open>RegisterMsgType\<close> succeeds. Every descriptor the bootstrap appended carries the
  stripped name of a response, ends in no NUL byte, and was appended because the stripped
  name was not yet in the registry.
\<close>

theorem names_stripped:
  assumes "bootstrap g msgs = (g1, None)"
  shows "(\<forall>msg\<in>set msgs. \<exists>s k.
            dict_get (snd msg) ''family_name'' = Inr (PStr s)
            \<and> family_by_name g1 (rstrip NUL s) = Inr k
            \<and> k < length (msgtypes g1) \<and> desc_name (msgtypes g1 ! k) = rstrip NUL s
            \<and> (\<exists>g2. RegisterMsgType g1 (rstrip NUL s) ps commands = Inr g2))
       \<and> (\<exists>new. msgtypes g1 = msgtypes g @ new
            \<and> (\<forall>d\<in>set new.
                  (desc_name d = [] \<or> last (desc_name d) \<noteq> NUL)
                  \<and> desc_name d \<notin> desc_name ` set (msgtypes g)
                  \<and> (\<exists>msg\<in>set msgs. \<exists>s. dict_get (snd msg) ''family_name'' = Inr (PStr s)
                         \<and> desc_name d = rstrip NUL s)))"
proof
  note F = bootstrap_first [OF assms]
  show "\<forall>msg\<in>set msgs. \<exists>s k.
            dict_get (snd msg) ''family_name'' = Inr (PStr s)
            \<and> family_by_name g1 (rstrip NUL s) = Inr k
            \<and> k < length (msgtypes g1) \<and> desc_name (msgtypes g1 ! k) = rstrip NUL s
            \<and> (\<exists>g2. RegisterMsgType g1 (rstrip NUL s) ps commands = Inr g2)"
  proof
    fix msg
    assume "msg \<in> set msgs"
    with F obtain nm where nm: "msg_name msg = Some nm" "nm \<in> desc_name ` set (msgtypes g1)"
      by blast
    then obtain s where s: "dict_get (snd msg) ''family_name'' = Inr (PStr s)"
      and r: "rstrip NUL s = nm"
      by (auto simp: msg_name_def split: sum.splits pyval.splits)
    from nm(2) have "nm \<in> dom (map_of (index_by desc_name (msgtypes g1)))"
      by (simp only: dom_index_by)
    then obtain k where k: "map_of (index_by desc_name (msgtypes g1)) nm = Some k"
      by auto
    from index_by_Some [OF k] have kk: "k < length (msgtypes g1)" "desc_name (msgtypes g1 ! k) = nm"
      by simp_all
    from k F have f: "family_by_name g1 nm = Inr k"
      by (simp add: family_by_name_def dict_get_def)
    then have "\<exists>g2. RegisterMsgType g1 nm ps commands = Inr g2"
      by (simp add: RegisterMsgType_def)
    with s r kk f show "\<exists>s k.
            dict_get (snd msg) ''family_name'' = Inr (PStr s)
            \<and> family_by_name g1 (rstrip NUL s) = Inr k
            \<and> k < length (msgtypes g1) \<and> desc_name (msgtypes g1 ! k) = rstrip NUL s
            \<and> (\<exists>g2. RegisterMsgType g1 (rstrip NUL s) ps commands = Inr g2)"
      by blast
  qed
next
  from assms obtain g' where l: "bootstrap_loop (UpdateMsgTypes g) msgs = (g', None)"
    and g1: "g1 = UpdateMsgTypes g'"
    by (auto simp: bootstrap_def split: prod.splits option.splits)
  from bootstrap_loop_trace [OF l, of "msgtypes g" "[]"] obtain new where
    new: "msgtypes g' = msgtypes g @ new"
    and N: "\<forall>d\<in>set new. \<exists>msg\<in>set msgs. msg_name msg = Some (desc_name d)
           \<and> msg_id msg = Inr (desc_id d)
           \<and> map_of (index_by desc_name (msgtypes g)) (desc_name d) = None"
    by auto
  have "\<forall>d\<in>set new.
          (desc_name d = [] \<or> last (desc_name d) \<noteq> NUL)
          \<and> desc_name d \<notin> desc_name ` set (msgtypes g)
          \<and> (\<exists>msg\<in>set msgs. \<exists>s. dict_get (snd msg) ''family_name'' = Inr (PStr s)
                 \<and> desc_name d = rstrip NUL s)"
  proof
    fix d
    assume "d \<in> set new"
    with N obtain msg where m: "msg \<in> set msgs" "msg_name msg = Some (desc_name d)"
      and n: "map_of (index_by desc_name (msgtypes g)) (desc_name d) = None"
      by blast
    from m(2) obtain s where s: "dict_get (snd msg) ''family_name'' = Inr (PStr s)"
      and r: "desc_name d = rstrip NUL s"
      by (auto simp: msg_name_def split: sum.splits pyval.splits)
    from n have "desc_name d \<notin> dom (map_of (index_by desc_name (msgtypes g)))"
      by auto
    then have "desc_name d \<notin> desc_name ` set (msgtypes g)"
      unfolding dom_index_by .
    with m s r rstrip_no_trailing [of NUL s]
    show "(desc_name d = [] \<or> last (desc_name d) \<noteq> NUL)
          \<and> desc_name d \<notin> desc_name ` set (msgtypes g)
          \<and> (\<exists>msg\<in>set msgs. \<exists>s. dict_get (snd msg) ''family_name'' = Inr (PStr s)
                 \<and> desc_name d = rstrip NUL s)"
      by auto
  qed
  with new g1 show "\<exists>new. msgtypes g1 = msgtypes g @ new
            \<and> (\<forall>d\<in>set new.
                  (desc_name d = [] \<or> last (desc_name d) \<noteq> NUL)
                  \<and> desc_name d \<notin> desc_name ` set (msgtypes g)
                  \<and> (\<exists>msg\<in>set msgs. \<exists>s. dict_get (snd msg) ''family_name'' = Inr (PStr s)
                         \<and> desc_name d = rstrip NUL s))"
    by simp
qed

theorem names_stripped_witness:
  "GenericNetlink_init family_dump = (registry1, None)
   \<and> map desc_name (msgtypes registry1) = [''nlctrl'', ''nl80211'']
   \<and> RegisterMsgType registry1 ''nl80211'' (Attributes nl80211_attr) nl80211_commands = Inr registry2
   \<and> RegisterMsgType registry1 (''nl80211'' @ [NUL]) (Attributes nl80211_attr) nl80211_commands
       = Inl KeyError
   \<and> (\<exists>s k. dict_get (snd (family_dump ! 1)) ''family_name'' = Inr (PStr s)
            \<and> family_by_name registry1 (rstrip NUL s) = Inr k
            \<and> k < length (msgtypes registry1)
            \<and> desc_name (msgtypes registry1 ! k) = rstrip NUL s
            \<and> (\<exists>g2. RegisterMsgType registry1 (rstrip NUL s) (Attributes nl80211_attr)
                        nl80211_commands = Inr g2))
   \<and> (\<exists>new. msgtypes registry1 = msgtypes registry0 @ new
            \<and> (\<forall>d\<in>set new.
                  (desc_name d = [] \<or> last (desc_name d) \<noteq> NUL)
                  \<and> desc_name d \<notin> desc_name ` set (msgtypes registry0)
                  \<and> (\<exists>msg\<in>set family_dump. \<exists>s.
                         dict_get (snd msg) ''family_name'' = Inr (PStr s)
                         \<and> desc_name d = rstrip NUL s)))"
proof -
  have 1: "bootstrap registry0 family_dump = (registry1, None)"
    by code_simp
  have 2: "map desc_name (msgtypes registry1) = [''nlctrl'', ''nl80211'']"
    by code_simp
  have 3: "RegisterMsgType registry1 ''nl80211'' (Attributes nl80211_attr) nl80211_commands
             = Inr registry2"
    by code_simp
  have 4: "RegisterMsgType registry1 (''nl80211'' @ [NUL]) (Attributes nl80211_attr)
             nl80211_commands = Inl KeyError"
    by code_simp
  have 5: "family_dump ! 1 \<in> set family_dump"
    by (simp add: family_dump_def)
  note T = names_stripped [OF 1, of "Attributes nl80211_attr" nl80211_commands]
  from T [THEN conjunct1, rule_format, OF 5] T [THEN conjunct2] 1 2 3 4
  show ?thesis
    by (simp add: GenericNetlink_init_def registry0_def)
qed

end
